theory Spec2Isabelle
  imports Main "HOL-Library.Sublist"
begin

section \<open>Automation testing tool: a shallow embedding of \<^verbatim>\<open>project.py\<close>\<close>

text \<open>
  The module crawls a site with a Selenium browser and runs a battery of page checks.
  The browser, the network and the clock are outside the program; they are modelled as an
  external state of an arbitrary type \<open>'d\<close> together with a record of operations on it,
  each returning either the exception it raised or its value, and the new external state.
  Pure library functions (\<^verbatim>\<open>urljoin\<close>, \<^verbatim>\<open>urlparse\<close>, the HTML parser, \<^verbatim>\<open>repr\<close>) are taken
  as parameters. Strings are lists of characters, a character being a code point below 256;
  case folding and whitespace are those of Python on these code points.
\<close>

subsection \<open>Exceptions\<close>

text \<open>
  Every exception carries its message (\<^verbatim>\<open>str(e)\<close>). \<open>OtherException\<close> stands for any
  other subclass of \<^verbatim>\<open>Exception\<close>.
\<close>

datatype exn =
    StaleElementReferenceException string
  | ValueError string
  | RuntimeError string
  | OtherException string

fun str_exn :: "exn \<Rightarrow> string" where
  "str_exn (StaleElementReferenceException m) = m"
| "str_exn (ValueError m) = m"
| "str_exn (RuntimeError m) = m"
| "str_exn (OtherException m) = m"

fun is_stale :: "exn \<Rightarrow> bool" where
  "is_stale (StaleElementReferenceException m) = True"
| "is_stale (ValueError m) = False"
| "is_stale (RuntimeError m) = False"
| "is_stale (OtherException m) = False"

subsection \<open>String helpers of the Python runtime\<close>

text \<open>
  \<^verbatim>\<open>str.lower()\<close>: the letters \<^verbatim>\<open>A\<close> to \<^verbatim>\<open>Z\<close> (65 to 90) and the upper-case letters of
  the range 192 to 222 (215, the multiplication sign, is not one) move up by 32.
\<close>

definition lower_char :: "char \<Rightarrow> char" where
  "lower_char c =
     (let n = (of_char c :: nat)
      in if (65 \<le> n \<and> n \<le> 90) \<or> (192 \<le> n \<and> n \<le> 222 \<and> n \<noteq> 215)
         then char_of (n + 32) else c)"

definition lower :: "string \<Rightarrow> string" where
  "lower s = map lower_char s"

text \<open>
  \<^verbatim>\<open>str.isspace()\<close> on one character: the ASCII white space, the separators 28 to 31,
  NEL (133) and the no-break space (160).
\<close>

definition isspace :: "char \<Rightarrow> bool" where
  "isspace c = ((of_char c :: nat) \<in> {9, 10, 11, 12, 13, 28, 29, 30, 31, 32, 133, 160})"

definition strip :: "string \<Rightarrow> string" where
  "strip s = rev (dropWhile isspace (rev (dropWhile isspace s)))"

text \<open>\<^verbatim>\<open>s.split('#')[0]\<close>: the part of \<open>s\<close> before the first \<open>#\<close>.\<close>

definition split_hash_0 :: "string \<Rightarrow> string" where
  "split_hash_0 s = takeWhile (\<lambda>c. c \<noteq> CHR ''#'') s"

text \<open>
  \<^verbatim>\<open>re.search(pattern, text)\<close> for a pattern without metacharacters: the pattern occurs
  somewhere in the text.
\<close>

fun re_search :: "string \<Rightarrow> string \<Rightarrow> bool" where
  "re_search p [] = (p = [])"
| "re_search p (c # cs) = (prefix p (c # cs) \<or> re_search p cs)"

definition digit_char :: "nat \<Rightarrow> char" where
  "digit_char d = char_of (48 + d)"

text \<open>\<^verbatim>\<open>str(n)\<close> for a natural number, as an f-string formats it.\<close>

fun str_nat :: "nat \<Rightarrow> string" where
  "str_nat n = (if n < 10 then [digit_char n] else str_nat (n div 10) @ [digit_char (n mod 10)])"

declare str_nat.simps [simp del]

subsection \<open>Configuration\<close>

definition SAFE_CLICK_BLACKLIST :: "string list" where
  "SAFE_CLICK_BLACKLIST =
     [''delete'', ''remove'', ''logout'', ''signout'', ''pay'', ''purchase'', ''buy'']"

subsection \<open>\<^verbatim>\<open>is_safe_text\<close>\<close>

fun blacklist_loop :: "string list \<Rightarrow> string \<Rightarrow> bool" where
  "blacklist_loop [] text = True"
| "blacklist_loop (pattern # ps) text =
     (if re_search pattern text then False else blacklist_loop ps text)"

definition is_safe_text :: "string \<Rightarrow> bool" where
  "is_safe_text text =
     (if text = [] then True else blacklist_loop SAFE_CLICK_BLACKLIST (lower text))"

subsection \<open>\<^verbatim>\<open>SiteTester.normalise\<close>\<close>

definition normalise :: "string \<Rightarrow> string" where
  "normalise url = (if \<not> prefix ''http'' url then ''http://'' @ url else url)"

subsection \<open>\<^verbatim>\<open>PageResult\<close>\<close>

record test_record =
  name :: string
  passed :: bool
  message :: string

record PageResult =
  url :: string
  tests :: "test_record list"
  screenshot :: "string option"

definition PageResult_init :: "string \<Rightarrow> PageResult" where
  "PageResult_init u = \<lparr>url = u, tests = [], screenshot = None\<rparr>"

definition add :: "string \<Rightarrow> bool \<Rightarrow> string \<Rightarrow> PageResult \<Rightarrow> PageResult" where
  "add n p m self = self\<lparr>tests := tests self @ [\<lparr>name = n, passed = p, message = m\<rparr>]\<rparr>"

definition passed_count :: "PageResult \<Rightarrow> nat" where
  "passed_count self = length (filter passed (tests self))"

definition failed_count :: "PageResult \<Rightarrow> nat" where
  "failed_count self = length (filter (\<lambda>t. \<not> passed t) (tests self))"

subsection \<open>The environment: browser, network, clock\<close>

text \<open>
  Elements are handles (natural numbers). Each operation may raise; whether it does can
  depend on the external state, which is how an element goes stale after a navigation.
\<close>

record 'd env =
  time_sleep :: "nat \<Rightarrow> 'd \<Rightarrow> 'd"
  requests_head :: "string \<Rightarrow> nat \<Rightarrow> 'd \<Rightarrow> (exn + int) \<times> 'd"
  find_elements :: "string \<Rightarrow> 'd \<Rightarrow> (exn + nat list) \<times> 'd"
  element_text :: "nat \<Rightarrow> 'd \<Rightarrow> (exn + string) \<times> 'd"
  get_attribute :: "nat \<Rightarrow> string \<Rightarrow> 'd \<Rightarrow> (exn + string option) \<times> 'd"
  element_click :: "nat \<Rightarrow> 'd \<Rightarrow> (exn + unit) \<times> 'd"
  driver_back :: "'d \<Rightarrow> (exn + unit) \<times> 'd"

text \<open>
  The calls the program makes to the outside are recorded in a log, in order: a pause, a
  HEAD request with its outcome, a call of \<^verbatim>\<open>click()\<close> on an element with the text derived
  for it and whether the call returned, a call of \<^verbatim>\<open>back()\<close> and whether it returned.
\<close>

datatype event =
    EvSleep nat
  | EvHead string "exn + int"
  | EvClick nat string bool
  | EvBack bool

text \<open>
  The state a check runs in: the external state, the \<^verbatim>\<open>PageResult\<close> it appends to, the
  log, and the exception the caller is handling when it calls the check, if any
  (\<^verbatim>\<open>sys.exc_info()\<close>; \<open>None\<close> for a call made outside every \<^verbatim>\<open>except\<close> block).
\<close>

record 'd world =
  drv :: 'd
  page_result :: PageResult
  log :: "event list"
  exc_info :: "exn option"

definition sleep :: "'d env \<Rightarrow> nat \<Rightarrow> 'd world \<Rightarrow> 'd world" where
  "sleep E n w = w\<lparr>drv := time_sleep E n (drv w), log := log w @ [EvSleep n]\<rparr>"

definition page_add :: "string \<Rightarrow> bool \<Rightarrow> string \<Rightarrow> 'd world \<Rightarrow> 'd world" where
  "page_add n p m w = w\<lparr>page_result := add n p m (page_result w)\<rparr>"

subsection \<open>\<^verbatim>\<open>retry_on_stale\<close>\<close>

text \<open>
  The \<^verbatim>\<open>for _ in range(3)\<close> loop: \<open>Some r\<close> when an execution of the body returned or
  raised something other than staleness (which leaves the wrapper at once), \<open>None\<close> when the
  loop ran out.
\<close>

fun retry_loop ::
  "nat \<Rightarrow> 'd env \<Rightarrow> ('d world \<Rightarrow> (exn + 'a) \<times> 'd world) \<Rightarrow> 'd world
     \<Rightarrow> (exn + 'a) option \<times> 'd world" where
  "retry_loop 0 E func w = (None, w)"
| "retry_loop (Suc n) E func w =
     (case func w of
        (Inr v, w1) \<Rightarrow> (Some (Inr v), w1)
      | (Inl e, w1) \<Rightarrow>
          if is_stale e then retry_loop n E func (sleep E 1 w1) else (Some (Inl e), w1))"

text \<open>
  The statement after the loop is a bare \<^verbatim>\<open>raise\<close>. The \<^verbatim>\<open>except\<close> clause that handled the
  last staleness error has been left, so the bare \<^verbatim>\<open>raise\<close> re-raises what the caller is
  handling, and with nothing being handled Python raises
  \<^verbatim>\<open>RuntimeError('No active exception to reraise')\<close>.
\<close>

definition bare_raise :: "exn option \<Rightarrow> exn" where
  "bare_raise active =
     (case active of Some e \<Rightarrow> e | None \<Rightarrow> RuntimeError ''No active exception to reraise'')"

definition retry_on_stale ::
  "'d env \<Rightarrow> ('d world \<Rightarrow> (exn + 'a) \<times> 'd world) \<Rightarrow> 'd world \<Rightarrow> (exn + 'a) \<times> 'd world" where
  "retry_on_stale E func w =
     (case retry_loop 3 E func w of
        (Some r, w1) \<Rightarrow> (r, w1)
      | (None, w1) \<Rightarrow> (Inl (bare_raise (exc_info w1)), w1))"

subsection \<open>\<^verbatim>\<open>SiteTester.http_status_check\<close>\<close>

definition http_status_check ::
  "'d env \<Rightarrow> string \<Rightarrow> 'd world \<Rightarrow> (int option \<times> string) \<times> 'd world" where
  "http_status_check E u w =
     (case requests_head E u 10 (drv w) of
        (Inr status_code, d) \<Rightarrow>
          ((Some status_code, []), w\<lparr>drv := d, log := log w @ [EvHead u (Inr status_code)]\<rparr>)
      | (Inl e, d) \<Rightarrow>
          ((None, str_exn e), w\<lparr>drv := d, log := log w @ [EvHead u (Inl e)]\<rparr>))"

subsection \<open>Library functions\<close>

text \<open>
  What the check records about a broken link: the status code, or \<^verbatim>\<open>str(e)\<close> of the
  exception the request raised.
\<close>

datatype problem = Status int | Failure string

text \<open>
  \<open>anchor_hrefs\<close> is the HTML parser: the \<^verbatim>\<open>href\<close> values of the anchors that have one, in
  document order. \<open>urljoin\<close> and \<open>urlparse\<close> raise \<^verbatim>\<open>ValueError\<close> on some inputs (\<open>Inl\<close> is
  its message); \<open>urlparse\<close> returns the scheme and the network location. \<open>set_order\<close> is the
  order in which a \<^verbatim>\<open>for\<close> loop visits a set of strings, and \<open>repr_list\<close> is \<^verbatim>\<open>repr\<close> of a
  list of pairs.
\<close>

record lib =
  anchor_hrefs :: "string \<Rightarrow> string list"
  urljoin :: "string \<Rightarrow> string \<Rightarrow> string + string"
  urlparse :: "string \<Rightarrow> string + (string \<times> string)"
  set_order :: "string set \<Rightarrow> string list"
  repr_list :: "(string \<times> problem) list \<Rightarrow> string"

subsection \<open>\<^verbatim>\<open>SiteTester\<close>\<close>

record SiteTester =
  base_url :: string
  domain :: string
  scheme :: string
  visited :: "string set"
  to_visit :: "string list"
  results :: "(string \<times> PageResult) list"
  start_time :: nat

text \<open>
  \<^verbatim>\<open>__init__\<close>: \<open>now\<close> is the clock reading and \<open>chrome\<close> the outcome of installing the
  driver and starting the browser (an exception, or the initial external state).
\<close>

definition SiteTester_init ::
  "lib \<Rightarrow> nat \<Rightarrow> exn + 'd \<Rightarrow> string \<Rightarrow> exn + (SiteTester \<times> 'd)" where
  "SiteTester_init L now chrome raw =
     (let b = normalise raw in
      case urlparse L b of
        Inl m \<Rightarrow> Inl (ValueError m)
      | Inr (sch, netloc) \<Rightarrow>
          (case chrome of
             Inl e \<Rightarrow> Inl e
           | Inr d \<Rightarrow>
               Inr (\<lparr>base_url = b, domain = netloc, scheme = sch, visited = {},
                     to_visit = [b], results = [], start_time = now\<rparr>, d)))"

definition same_domain :: "lib \<Rightarrow> SiteTester \<Rightarrow> string \<Rightarrow> bool" where
  "same_domain L self u =
     (case urlparse L u of
        Inl m \<Rightarrow> False
      | Inr (sch, netloc) \<Rightarrow> netloc = [] \<or> netloc = domain self)"

text \<open>The loop of \<^verbatim>\<open>discover_links\<close> over the anchors, with the set built so far.\<close>

fun discover_loop ::
  "lib \<Rightarrow> SiteTester \<Rightarrow> string \<Rightarrow> string list \<Rightarrow> string set \<Rightarrow> exn + string set" where
  "discover_loop L self base [] links = Inr links"
| "discover_loop L self base (a # as) links =
     (let href = strip a in
      if prefix ''mailto:'' href \<or> prefix ''tel:'' href then discover_loop L self base as links
      else
        (case urljoin L base href of
           Inl m \<Rightarrow> Inl (ValueError m)
         | Inr absolute \<Rightarrow>
             if prefix ''javascript:'' absolute then discover_loop L self base as links
             else
               (let absolute' = split_hash_0 absolute in
                if same_domain L self absolute'
                then discover_loop L self base as (insert absolute' links)
                else discover_loop L self base as links)))"

definition discover_links :: "lib \<Rightarrow> SiteTester \<Rightarrow> string \<Rightarrow> string \<Rightarrow> exn + string set" where
  "discover_links L self page_source base =
     discover_loop L self base (anchor_hrefs L page_source) {}"

subsection \<open>\<^verbatim>\<open>fill_and_submit_forms\<close>\<close>

definition fill_and_submit_forms_body :: "'d env \<Rightarrow> 'd world \<Rightarrow> (exn + unit) \<times> 'd world" where
  "fill_and_submit_forms_body E w =
     (case find_elements E ''form'' (drv w) of
        (r, d) \<Rightarrow>
          (let forms = (case r of Inl e \<Rightarrow> [] | Inr fs \<Rightarrow> fs);
               w1 = w\<lparr>drv := d\<rparr>
           in if forms = []
              then (Inr (), page_add ''forms_detected'' True ''No forms on page'' w1)
              else (Inr (), page_add ''forms_detected'' True
                              (str_nat (length forms) @ '' form(s)'') w1)))"

definition fill_and_submit_forms :: "'d env \<Rightarrow> 'd world \<Rightarrow> (exn + unit) \<times> 'd world" where
  "fill_and_submit_forms E = retry_on_stale E (fill_and_submit_forms_body E)"

subsection \<open>\<^verbatim>\<open>check_internal_links\<close>\<close>

text \<open>The loop over the links, with the list \<open>broken\<close> and the counter \<open>checked\<close>.\<close>

fun head_loop ::
  "'d env \<Rightarrow> string list \<Rightarrow> (string \<times> problem) list \<Rightarrow> nat \<Rightarrow> 'd world
     \<Rightarrow> (string \<times> problem) list \<times> 'd world" where
  "head_loop E [] broken checked w = (broken, w)"
| "head_loop E (link # ls) broken checked w =
     (if checked \<ge> 20 then (broken, w)
      else
        (case requests_head E link 8 (drv w) of
           (Inr status_code, d) \<Rightarrow>
             head_loop E ls
               (if status_code \<ge> 400 then broken @ [(link, Status status_code)] else broken)
               (checked + 1)
               (w\<lparr>drv := d, log := log w @ [EvHead link (Inr status_code)]\<rparr>)
         | (Inl e, d) \<Rightarrow>
             head_loop E ls (broken @ [(link, Failure (str_exn e))]) (checked + 1)
               (w\<lparr>drv := d, log := log w @ [EvHead link (Inl e)]\<rparr>)))"

definition broken_message :: "lib \<Rightarrow> (string \<times> problem) list \<Rightarrow> string" where
  "broken_message L broken =
     str_nat (length broken) @ '' broken or problematic links (sample: ''
       @ repr_list L (take 3 broken) @ '')''"

definition check_internal_links_body ::
  "lib \<Rightarrow> 'd env \<Rightarrow> SiteTester \<Rightarrow> string \<Rightarrow> string \<Rightarrow> 'd world \<Rightarrow> (exn + unit) \<times> 'd world" where
  "check_internal_links_body L E self page_source base w =
     (case discover_links L self page_source base of
        Inl e \<Rightarrow> (Inl e, w)
      | Inr links \<Rightarrow>
          (case head_loop E (set_order L links) [] 0 w of
             (broken, w1) \<Rightarrow>
               if broken \<noteq> []
               then (Inr (), page_add ''broken_links'' False (broken_message L broken) w1)
               else (Inr (), page_add ''broken_links'' True
                               ''No broken links found (checked up to 20)'' w1)))"

definition check_internal_links ::
  "lib \<Rightarrow> 'd env \<Rightarrow> SiteTester \<Rightarrow> string \<Rightarrow> string \<Rightarrow> 'd world \<Rightarrow> (exn + unit) \<times> 'd world" where
  "check_internal_links L E self page_source base =
     retry_on_stale E (check_internal_links_body L E self page_source base)"

subsection \<open>\<^verbatim>\<open>safe_click_buttons\<close>\<close>

text \<open>\<^verbatim>\<open>b.text or b.get_attribute('aria-label') or ''\<close>, evaluated from left to right.\<close>

definition derive_text :: "'d env \<Rightarrow> nat \<Rightarrow> 'd \<Rightarrow> (exn + string) \<times> 'd" where
  "derive_text E b d =
     (case element_text E b d of
        (Inl e, d1) \<Rightarrow> (Inl e, d1)
      | (Inr t, d1) \<Rightarrow>
          if t \<noteq> [] then (Inr t, d1)
          else
            (case get_attribute E b ''aria-label'' d1 of
               (Inl e, d2) \<Rightarrow> (Inl e, d2)
             | (Inr a, d2) \<Rightarrow> (Inr (case a of None \<Rightarrow> [] | Some s \<Rightarrow> s), d2)))"

definition button_click_name :: "nat \<Rightarrow> string" where
  "button_click_name clicked = ''button_click_'' @ str_nat clicked"

definition clicked_message :: "string \<Rightarrow> string" where
  "clicked_message text = ''Clicked button: '' @ [CHR 0x22] @ text @ [CHR 0x22]"

definition could_not_click_message :: "string \<Rightarrow> exn \<Rightarrow> string" where
  "could_not_click_message text e =
     ''Could not click '' @ [CHR 0x22] @ text @ [CHR 0x22] @ '' - '' @ str_exn e"

text \<open>
  The \<^verbatim>\<open>try\<close> block of the loop body, for a button whose text is safe. Everything raised
  inside it is caught by \<^verbatim>\<open>except Exception\<close>; the result is the new value of \<open>clicked\<close>.
\<close>

definition try_click :: "'d env \<Rightarrow> nat \<Rightarrow> string \<Rightarrow> nat \<Rightarrow> 'd world \<Rightarrow> nat \<times> 'd world" where
  "try_click E b text clicked w =
     (case element_click E b (drv w) of
        (Inl e, d1) \<Rightarrow>
          (clicked,
           page_add (button_click_name clicked) False (could_not_click_message text e)
             (w\<lparr>drv := d1, log := log w @ [EvClick b text False]\<rparr>))
      | (Inr u, d1) \<Rightarrow>
          (let w1 = sleep E 1 (w\<lparr>drv := d1, log := log w @ [EvClick b text True]\<rparr>);
               w2 = page_add (button_click_name clicked) True (clicked_message text) w1
           in case driver_back E (drv w2) of
                (Inl e, d2) \<Rightarrow>
                  (clicked,
                   page_add (button_click_name clicked) False (could_not_click_message text e)
                     (w2\<lparr>drv := d2, log := log w2 @ [EvBack False]\<rparr>))
              | (Inr u', d2) \<Rightarrow>
                  (clicked + 1, sleep E 1 (w2\<lparr>drv := d2, log := log w2 @ [EvBack True]\<rparr>))))"

text \<open>
  The loop over the buttons. Reading the text of a button is outside the \<^verbatim>\<open>try\<close> block: an
  exception raised there leaves the loop and the function.
\<close>

fun click_loop :: "'d env \<Rightarrow> nat list \<Rightarrow> nat \<Rightarrow> 'd world \<Rightarrow> (exn + nat) \<times> 'd world" where
  "click_loop E [] clicked w = (Inr clicked, w)"
| "click_loop E (b # bs) clicked w =
     (if clicked \<ge> 3 then (Inr clicked, w)
      else
        (case derive_text E b (drv w) of
           (Inl e, d) \<Rightarrow> (Inl e, w\<lparr>drv := d\<rparr>)
         | (Inr text, d) \<Rightarrow>
             if \<not> is_safe_text text then click_loop E bs clicked (w\<lparr>drv := d\<rparr>)
             else
               (case try_click E b text clicked (w\<lparr>drv := d\<rparr>) of
                  (clicked', w1) \<Rightarrow> click_loop E bs clicked' w1)))"

definition safe_click_buttons_body :: "'d env \<Rightarrow> 'd world \<Rightarrow> (exn + unit) \<times> 'd world" where
  "safe_click_buttons_body E w =
     (case find_elements E ''button'' (drv w) of
        (r, d) \<Rightarrow>
          (let buttons = (case r of Inl e \<Rightarrow> [] | Inr bs \<Rightarrow> bs) in
           case click_loop E buttons 0 (w\<lparr>drv := d\<rparr>) of
             (Inl e, w1) \<Rightarrow> (Inl e, w1)
           | (Inr clicked, w1) \<Rightarrow>
               if clicked = 0
               then (Inr (), page_add ''button_clicks'' True
                               ''No safe clickable buttons found or none clicked'' w1)
               else (Inr (), w1)))"

definition safe_click_buttons :: "'d env \<Rightarrow> 'd world \<Rightarrow> (exn + unit) \<times> 'd world" where
  "safe_click_buttons E = retry_on_stale E (safe_click_buttons_body E)"

section \<open>Observations on runs\<close>

subsection \<open>What a run appended and emitted\<close>

text \<open>
  The checks only ever append to the record list and to the log. \<open>appended w w'\<close> and
  \<open>emitted w w'\<close> are the records and the events added between the states \<open>w\<close> and \<open>w'\<close>.
\<close>

definition appended :: "'d world \<Rightarrow> 'd world \<Rightarrow> test_record list" where
  "appended w w' = drop (length (tests (page_result w))) (tests (page_result w'))"

definition emitted :: "'d world \<Rightarrow> 'd world \<Rightarrow> event list" where
  "emitted w w' = drop (length (log w)) (log w')"

definition extends :: "'d world \<Rightarrow> 'd world \<Rightarrow> test_record list \<Rightarrow> event list \<Rightarrow> bool" where
  "extends w w' recs evs \<longleftrightarrow>
     tests (page_result w') = tests (page_result w) @ recs \<and> log w' = log w @ evs
     \<and> exc_info w' = exc_info w"

subsection \<open>Records and events of the click loop\<close>

definition pass_record :: "nat \<Rightarrow> string \<Rightarrow> test_record" where
  "pass_record k t = \<lparr>name = button_click_name k, passed = True, message = clicked_message t\<rparr>"

definition fail_record :: "nat \<Rightarrow> string \<Rightarrow> exn \<Rightarrow> test_record" where
  "fail_record k t e =
     \<lparr>name = button_click_name k, passed = False, message = could_not_click_message t e\<rparr>"

definition summary_record :: test_record where
  "summary_record = \<lparr>name = ''button_clicks'', passed = True,
     message = ''No safe clickable buttons found or none clicked''\<rparr>"

definition is_summary :: "test_record \<Rightarrow> bool" where
  "is_summary r = (name r = ''button_clicks'')"

fun click_returned :: "event \<Rightarrow> bool" where
  "click_returned (EvClick b t ok) = ok"
| "click_returned e = False"


fun back_returned :: "event \<Rightarrow> bool" where
  "back_returned (EvBack ok) = ok"
| "back_returned e = False"



text \<open>
  The traces of the loop of \<^verbatim>\<open>safe_click_buttons\<close>, from the value \<open>k\<close> of \<open>clicked\<close> to its
  final value: for each candidate whose text is safe, either \<^verbatim>\<open>click()\<close> raised (a failed
  record), or it returned and \<^verbatim>\<open>back()\<close> raised (a pass record, then a failed record with
  the same index), or both returned (a pass record, and \<open>clicked\<close> grows by one).
\<close>

inductive click_run :: "nat \<Rightarrow> test_record list \<Rightarrow> event list \<Rightarrow> nat \<Rightarrow> bool" where
  finished: "click_run k [] [] k"
| click_raised:
    "click_run k recs evs k' \<Longrightarrow> is_safe_text t \<Longrightarrow> k < 3 \<Longrightarrow>
       click_run k (fail_record k t e # recs) (EvClick b t False # evs) k'"
| back_raised:
    "click_run k recs evs k' \<Longrightarrow> is_safe_text t \<Longrightarrow> k < 3 \<Longrightarrow>
       click_run k (pass_record k t # fail_record k t e # recs)
         (EvClick b t True # EvSleep 1 # EvBack False # evs) k'"
| completed:
    "click_run (Suc k) recs evs k' \<Longrightarrow> is_safe_text t \<Longrightarrow> k < 3 \<Longrightarrow>
       click_run k (pass_record k t # recs)
         (EvClick b t True # EvSleep 1 # EvBack True # EvSleep 1 # evs) k'"

text \<open>
  \<open>reads_as E b t\<close>: in some state of the browser, the visible text of the element \<open>b\<close> is
  the non-empty \<open>t\<close>, or it is empty and \<open>t\<close> is the value of the \<^verbatim>\<open>aria-label\<close> attribute
  (empty when that is missing).
\<close>

definition reads_as :: "'d env \<Rightarrow> nat \<Rightarrow> string \<Rightarrow> bool" where
  "reads_as E b t \<longleftrightarrow>
     (\<exists>d d1. element_text E b d = (Inr t, d1) \<and> t \<noteq> []) \<or>
     (\<exists>d d1 a d2. element_text E b d = (Inr [], d1)
        \<and> get_attribute E b ''aria-label'' d1 = (Inr a, d2)
        \<and> t = (case a of None \<Rightarrow> [] | Some s \<Rightarrow> s))"

text \<open>
  A trace of the click loop in the browser \<open>E\<close>: the text of every click event was read
  from its element and is safe, and every click record belongs to a click event.
\<close>

definition click_trace :: "'d env \<Rightarrow> test_record list \<Rightarrow> event list \<Rightarrow> bool" where
  "click_trace E recs evs \<longleftrightarrow>
     (\<forall>b t ok. EvClick b t ok \<in> set evs \<longrightarrow> reads_as E b t \<and> is_safe_text t) \<and>
     (\<forall>r\<in>set recs. is_summary r \<or>
        (\<exists>j t b ok. EvClick b t ok \<in> set evs \<and> (r = pass_record j t \<or> (\<exists>e. r = fail_record j t e))))"


subsection \<open>Requests of the broken-link check\<close>

text \<open>
  A link is broken when its status code is at least 400 or the request raised. \<open>probes\<close>
  reads the requests and their outcomes off the log, and \<open>broken_of\<close> is the list the check
  builds from them.
\<close>

fun is_broken :: "exn + int \<Rightarrow> bool" where
  "is_broken (Inr status_code) = (status_code \<ge> 400)"
| "is_broken (Inl e) = True"

fun problem_of :: "exn + int \<Rightarrow> problem" where
  "problem_of (Inr status_code) = Status status_code"
| "problem_of (Inl e) = Failure (str_exn e)"

fun probes :: "event list \<Rightarrow> (string \<times> (exn + int)) list" where
  "probes [] = []"
| "probes (EvHead link res # evs) = (link, res) # probes evs"
| "probes (e # evs) = probes evs"

definition head_events :: "(string \<times> (exn + int)) list \<Rightarrow> event list" where
  "head_events ps = map (\<lambda>(link, res). EvHead link res) ps"

definition broken_of :: "(string \<times> (exn + int)) list \<Rightarrow> (string \<times> problem) list" where
  "broken_of ps = map (\<lambda>(link, res). (link, problem_of res)) (filter (\<lambda>(link, res). is_broken res) ps)"

text \<open>The one record the check appends, from its list \<open>broken\<close>.\<close>

definition broken_links_record :: "lib \<Rightarrow> (string \<times> problem) list \<Rightarrow> test_record" where
  "broken_links_record L broken =
     (if broken = []
      then \<lparr>name = ''broken_links'', passed = True,
            message = ''No broken links found (checked up to 20)''\<rparr>
      else \<lparr>name = ''broken_links'', passed = False,
            message = str_nat (length broken) @ '' broken or problematic links (sample: ''
                        @ repr_list L (take 3 broken) @ '')''\<rparr>)"

subsection \<open>Anchors and the links they contribute\<close>

text \<open>
  \<open>contributes L self base a u\<close>: the loop of \<^verbatim>\<open>discover_links\<close> adds \<open>u\<close> for the anchor with
  \<^verbatim>\<open>href\<close> value \<open>a\<close>.
\<close>

definition contributes :: "lib \<Rightarrow> SiteTester \<Rightarrow> string \<Rightarrow> string \<Rightarrow> string \<Rightarrow> bool" where
  "contributes L self base a u \<longleftrightarrow>
     \<not> prefix ''mailto:'' (strip a) \<and> \<not> prefix ''tel:'' (strip a) \<and>
     (\<exists>absolute. urljoin L base (strip a) = Inr absolute \<and> \<not> prefix ''javascript:'' absolute
        \<and> u = split_hash_0 absolute \<and> same_domain L self u)"

section \<open>Example environments\<close>

text \<open>
  A browser whose buttons, texts and click outcomes do not depend on the external state;
  no button has an \<^verbatim>\<open>aria-label\<close>, and \<^verbatim>\<open>back()\<close> always returns.
\<close>

definition static_env ::
  "nat list \<Rightarrow> (nat \<Rightarrow> exn + string) \<Rightarrow> (nat \<Rightarrow> exn + unit) \<Rightarrow> (string \<Rightarrow> exn + int) \<Rightarrow> nat env" where
  "static_env buttons text click head =
     \<lparr>time_sleep = (\<lambda>n d. d),
      requests_head = (\<lambda>u t d. (head u, d)),
      find_elements = (\<lambda>tag d. (if tag = ''button'' then Inr buttons else Inr [], d)),
      element_text = (\<lambda>b d. (text b, d)),
      get_attribute = (\<lambda>b a d. (Inr None, d)),
      element_click = (\<lambda>b d. (click b, d)),
      driver_back = (\<lambda>d. (Inr (), d))\<rparr>"

definition fresh_world :: "nat world" where
  "fresh_world = \<lparr>drv = 0, page_result = PageResult_init ''http://example.com'', log = [], exc_info = None\<rparr>"

definition demo_head :: "string \<Rightarrow> exn + int" where
  "demo_head u = (if u = ''http://example.com/gone'' then Inr 404
                  else if u = ''http://example.com/down'' then Inl (OtherException ''timed out'')
                  else Inr 200)"

text \<open>
  Three buttons: the first shows \<^verbatim>\<open>Logout Now\<close> and has the label \<^verbatim>\<open>Menu\<close>, the second has no
  visible text and the label \<^verbatim>\<open>Delete item\<close>, the third shows \<^verbatim>\<open>OK\<close> and has no label.
\<close>

definition labelled_page :: "nat env" where
  "labelled_page =
     (static_env [0, 1, 2]
        (\<lambda>b. if b = 0 then Inr ''Logout Now'' else if b = 1 then Inr [] else Inr ''OK'')
        (\<lambda>b. Inr ()) demo_head)
     \<lparr>get_attribute := (\<lambda>b a d.
         (if a = ''aria-label''
          then Inr (if b = 0 then Some ''Menu'' else if b = 1 then Some ''Delete item'' else None)
          else Inr None, d))\<rparr>"

text \<open>A page whose only button is detached again each time it has been listed.\<close>

definition detached_button_page :: "nat env" where
  "detached_button_page =
     static_env [0]
       (\<lambda>b. Inl (StaleElementReferenceException ''stale element reference''))
       (\<lambda>b. Inr ()) demo_head"

definition demo_net :: "nat env" where
  "demo_net = static_env [] (\<lambda>b. Inr []) (\<lambda>b. Inr ()) demo_head"


text \<open>Two buttons whose \<^verbatim>\<open>click()\<close> raises.\<close>

definition intercepted_buttons :: "nat env" where
  "intercepted_buttons =
     static_env [0, 1] (\<lambda>b. Inr ''Open'')
       (\<lambda>b. Inl (OtherException ''element click intercepted'')) demo_head"

text \<open>A button without text and without \<^verbatim>\<open>aria-label\<close>.\<close>

definition unlabeled_button :: "nat env" where
  "unlabeled_button = static_env [7] (\<lambda>b. Inr []) (\<lambda>b. Inr ()) demo_head"


text \<open>Four buttons on a page where \<^verbatim>\<open>back()\<close> raises.\<close>

definition back_raises_page :: "nat env" where
  "back_raises_page =
     (static_env [0, 1, 2, 3] (\<lambda>b. Inr ''Open'') (\<lambda>b. Inr ()) demo_head)
     \<lparr>driver_back := (\<lambda>d. (Inl (OtherException ''no such window''), d))\<rparr>"

text \<open>
  Two pages and the values of the library at the strings that occur on them, for the base
  URL \<^verbatim>\<open>http://example.com/\<close>: \<^verbatim>\<open>urljoin\<close> and \<^verbatim>\<open>urlparse\<close> as tables (both raise
  \<^verbatim>\<open>ValueError('Invalid IPv6 URL')\<close> on \<^verbatim>\<open>http://[\<close>), a fixed iteration order for sets of
  the two internal links, and \<^verbatim>\<open>repr\<close> for links and messages without quotes.
\<close>

definition demo_page :: string where
  "demo_page = ''<a href=/about#team>About</a><a href=/about>About</a><a href=mailto:me@example.com>Mail</a><a href=javascript:void(0)>Run</a><a href=http://other.com/>Other</a><a href=/gone>Gone</a>''"

definition bad_page :: string where
  "bad_page = ''<a href=http://[>bad</a>''"

definition demo_urljoin :: "(string \<times> (string + string)) list" where
  "demo_urljoin =
     [(''/about#team'', Inr ''http://example.com/about#team''),
      (''/about'', Inr ''http://example.com/about''),
      (''mailto:me@example.com'', Inr ''mailto:me@example.com''),
      (''javascript:void(0)'', Inr ''javascript:void(0)''),
      (''http://other.com/'', Inr ''http://other.com/''),
      (''/gone'', Inr ''http://example.com/gone''),
      (''http://['', Inl ''Invalid IPv6 URL'')]"

definition demo_urlparse :: "(string \<times> (string + string \<times> string)) list" where
  "demo_urlparse =
     [(''http://example.com/'', Inr (''http'', ''example.com'')),
      (''http://example.com/about'', Inr (''http'', ''example.com'')),
      (''http://example.com/gone'', Inr (''http'', ''example.com'')),
      (''http://other.com/'', Inr (''http'', ''other.com'')),
      (''http://not a url'', Inr (''http'', ''not a url'')),
      (''http://['', Inl ''Invalid IPv6 URL'')]"

fun demo_repr_item :: "string \<times> problem \<Rightarrow> string" where
  "demo_repr_item (link, Status c) = ''('' @ [CHR 0x27] @ link @ [CHR 0x27] @ '', '' @ str_nat (nat c) @ '')''"
| "demo_repr_item (link, Failure m) =
     ''('' @ [CHR 0x27] @ link @ [CHR 0x27] @ '', '' @ [CHR 0x27] @ m @ [CHR 0x27] @ '')''"

fun demo_repr_items :: "(string \<times> problem) list \<Rightarrow> string" where
  "demo_repr_items [] = []"
| "demo_repr_items [x] = demo_repr_item x"
| "demo_repr_items (x # xs) = demo_repr_item x @ '', '' @ demo_repr_items xs"

definition demo_lib :: lib where
  "demo_lib =
     \<lparr>anchor_hrefs = (\<lambda>src.
        if src = demo_page
        then [''/about#team'', ''/about'', ''mailto:me@example.com'', ''javascript:void(0)'',
              ''http://other.com/'', ''/gone'']
        else if src = bad_page then [''http://[''] else []),
      urljoin = (\<lambda>base href. case map_of demo_urljoin href of Some r \<Rightarrow> r | None \<Rightarrow> Inr href),
      urlparse = (\<lambda>u. case map_of demo_urlparse u of Some r \<Rightarrow> r | None \<Rightarrow> Inr ([], [])),
      set_order = (\<lambda>S. filter (\<lambda>u. u \<in> S) [''http://example.com/gone'', ''http://example.com/about'']),
      repr_list = (\<lambda>xs. ''['' @ demo_repr_items xs @ '']'')\<rparr>"

definition demo_self :: SiteTester where
  "demo_self =
     \<lparr>base_url = ''http://example.com/'', domain = ''example.com'', scheme = ''http'',
      visited = {}, to_visit = [''http://example.com/''], results = [], start_time = 0\<rparr>"

section \<open>Properties\<close>

subsection \<open>The retry wrapper\<close>

lemma retry_loop_rel:
  assumes step: "\<And>w r w'. func w = (r, w') \<Longrightarrow> (case r of Inl e \<Rightarrow> R0 w w' | Inr v \<Rightarrow> R1 w w')"
    and refl: "\<And>w. R0 w w"
    and trans0: "\<And>a b c. R0 a b \<Longrightarrow> R0 b c \<Longrightarrow> R0 a c"
    and trans1: "\<And>a b c. R0 a b \<Longrightarrow> R1 b c \<Longrightarrow> R1 a c"
    and slp: "\<And>w. R0 w (sleep E 1 w)"
  shows "retry_loop n E func w = (res, w') \<Longrightarrow>
           (case res of None \<Rightarrow> R0 w w' | Some (Inl e) \<Rightarrow> R0 w w' | Some (Inr v) \<Rightarrow> R1 w w')"
proof (induction n arbitrary: w)
  case 0
  then show ?case by (simp add: refl)
next
  case (Suc n)
  obtain r w1 where f: "func w = (r, w1)" by (cases "func w")
  show ?case
  proof (cases r)
    case (Inr v)
    with Suc.prems f step[OF f] show ?thesis by auto
  next
    case (Inl e)
    with step[OF f] have a: "R0 w w1" by simp
    show ?thesis
    proof (cases "is_stale e")
      case False
      with Suc.prems f Inl a show ?thesis by auto
    next
      case True
      with Suc.prems f Inl have "retry_loop n E func (sleep E 1 w1) = (res, w')" by simp
      from Suc.IH[OF this] have b: "case res of None \<Rightarrow> R0 (sleep E 1 w1) w' | Some (Inl e) \<Rightarrow> R0 (sleep E 1 w1) w' | Some (Inr v) \<Rightarrow> R1 (sleep E 1 w1) w'" .
      have c: "R0 w (sleep E 1 w1)" using a slp trans0 by blast
      show ?thesis using b c trans0 trans1 by (auto split: option.splits sum.splits)
    qed
  qed
qed

lemma retry_on_stale_rel:
  assumes step: "\<And>w r w'. func w = (r, w') \<Longrightarrow> (case r of Inl e \<Rightarrow> R0 w w' | Inr v \<Rightarrow> R1 w w')"
    and refl: "\<And>w. R0 w w"
    and trans0: "\<And>a b c. R0 a b \<Longrightarrow> R0 b c \<Longrightarrow> R0 a c"
    and trans1: "\<And>a b c. R0 a b \<Longrightarrow> R1 b c \<Longrightarrow> R1 a c"
    and slp: "\<And>w. R0 w (sleep E 1 w)"
    and run: "retry_on_stale E func w = (r, w')"
  shows "case r of Inl e \<Rightarrow> R0 w w' | Inr v \<Rightarrow> R1 w w'"
proof -
  obtain res w1 where l: "retry_loop 3 E func w = (res, w1)" by (cases "retry_loop 3 E func w")
  have "case res of None \<Rightarrow> R0 w w1 | Some (Inl e) \<Rightarrow> R0 w w1 | Some (Inr v) \<Rightarrow> R1 w w1"
  proof (rule retry_loop_rel[where func=func and E=E and n=3])
    show "\<And>w r w'. func w = (r, w') \<Longrightarrow> (case r of Inl e \<Rightarrow> R0 w w' | Inr v \<Rightarrow> R1 w w')"
      by (rule step)
    show "\<And>w. R0 w w" by (rule refl)
    show "\<And>a b c. R0 a b \<Longrightarrow> R0 b c \<Longrightarrow> R0 a c" by (rule trans0)
    show "\<And>a b c. R0 a b \<Longrightarrow> R1 b c \<Longrightarrow> R1 a c" by (rule trans1)
    show "\<And>w. R0 w (sleep E 1 w)" by (rule slp)
    show "retry_loop 3 E func w = (res, w1)" by (rule l)
  qed
  with run l show ?thesis
    by (auto simp: retry_on_stale_def split: option.splits sum.splits)
qed

lemma retry_on_stale_not_stale:
  assumes "func w = (r, w')" and "\<And>e. r = Inl e \<Longrightarrow> \<not> is_stale e"
  shows "retry_on_stale E func w = (r, w')"
  using assms by (cases r) (auto simp: retry_on_stale_def numeral_3_eq_3)

text \<open>
  Two staleness failures followed by a result: three executions of the body, a pause after
  each failure, and the third result is returned. Three staleness failures: the bare
  \<^verbatim>\<open>raise\<close> after a third pause.
\<close>

lemma retry_on_stale_third_attempt:
  assumes "func w = (Inl e1, w1)" "is_stale e1"
      and "func (sleep E 1 w1) = (Inl e2, w2)" "is_stale e2"
      and "func (sleep E 1 w2) = (Inr v, w3)"
  shows "retry_on_stale E func w = (Inr v, w3)"
  using assms by (simp add: retry_on_stale_def numeral_3_eq_3)

lemma retry_on_stale_exhausted:
  assumes "func w = (Inl e1, w1)" "is_stale e1"
      and "func (sleep E 1 w1) = (Inl e2, w2)" "is_stale e2"
      and "func (sleep E 1 w2) = (Inl e3, w3)" "is_stale e3"
  shows "retry_on_stale E func w = (Inl (bare_raise (exc_info (sleep E 1 w3))), sleep E 1 w3)"
  using assms by (simp add: retry_on_stale_def numeral_3_eq_3)

subsection \<open>Appending\<close>

lemma extends_refl: "extends w w [] []"
  by (simp add: extends_def)

lemma extends_trans:
  "extends a b r1 e1 \<Longrightarrow> extends b c r2 e2 \<Longrightarrow> extends a c (r1 @ r2) (e1 @ e2)"
  by (simp add: extends_def)

lemma extends_drv [simp]: "extends (w\<lparr>drv := d\<rparr>) w' recs evs = extends w w' recs evs"
  by (simp add: extends_def)

lemma extends_observed: "extends w w' recs evs \<Longrightarrow> appended w w' = recs \<and> emitted w w' = evs"
  by (simp add: extends_def appended_def emitted_def)

lemma extends_sleep: "extends w (sleep E n w) [] [EvSleep n]"
  by (simp add: extends_def sleep_def)

lemma extends_page_add:
  "extends w (page_add n p m w) [\<lparr>name = n, passed = p, message = m\<rparr>] []"
  by (simp add: extends_def page_add_def add_def)

subsection \<open>The click loop produces a trace\<close>

lemma try_click_cases:
  assumes "try_click E b t k w = (k', w')"
  shows "(\<exists>e. k' = k \<and> extends w w' [fail_record k t e] [EvClick b t False])
       \<or> (\<exists>e. k' = k \<and> extends w w' [pass_record k t, fail_record k t e]
                           [EvClick b t True, EvSleep 1, EvBack False])
       \<or> (k' = Suc k \<and> extends w w' [pass_record k t]
                           [EvClick b t True, EvSleep 1, EvBack True, EvSleep 1])"
  using assms
  by (auto simp: try_click_def extends_def sleep_def page_add_def add_def Let_def
        pass_record_def fail_record_def split: prod.splits sum.splits)

lemma click_loop_run:
  "click_loop E bs k w = (r, w') \<Longrightarrow>
     \<exists>recs evs k'. extends w w' recs evs \<and> click_run k recs evs k' \<and> (\<forall>j. r = Inr j \<longrightarrow> j = k')"
proof (induction bs arbitrary: k w)
  case Nil
  then show ?case by (auto intro: extends_refl click_run.finished)
next
  case (Cons b bs)
  show ?case
  proof (cases "k \<ge> 3")
    case True
    with Cons.prems show ?thesis by (auto intro: extends_refl click_run.finished)
  next
    case k3: False
    obtain rt d where dt: "derive_text E b (drv w) = (rt, d)" by (cases "derive_text E b (drv w)")
    show ?thesis
    proof (cases rt)
      case (Inl e)
      with Cons.prems k3 dt have "r = Inl e" "w' = w\<lparr>drv := d\<rparr>" by auto
      then show ?thesis
        using extends_refl[of w] click_run.finished[of k] by (auto simp: extends_def)
    next
      case (Inr t)
      show ?thesis
      proof (cases "is_safe_text t")
        case False
        with Cons.prems k3 dt Inr have "click_loop E bs k (w\<lparr>drv := d\<rparr>) = (r, w')" by simp
        from Cons.IH[OF this] show ?thesis by simp
      next
        case safe: True
        obtain k1 w1 where tc: "try_click E b t k (w\<lparr>drv := d\<rparr>) = (k1, w1)"
          by (cases "try_click E b t k (w\<lparr>drv := d\<rparr>)")
        with Cons.prems k3 dt Inr safe have "click_loop E bs k1 w1 = (r, w')" by simp
        from Cons.IH[OF this] obtain recs evs k' where
          ih: "extends w1 w' recs evs" "click_run k1 recs evs k'" "\<forall>j. r = Inr j \<longrightarrow> j = k'"
          by blast
        from k3 have klt: "k < 3" by simp
        from try_click_cases[OF tc] show ?thesis
        proof (elim disjE exE conjE)
          fix e assume a: "k1 = k" "extends (w\<lparr>drv := d\<rparr>) w1 [fail_record k t e] [EvClick b t False]"
          from a(2) have "extends w w1 [fail_record k t e] [EvClick b t False]" by simp
          from extends_trans[OF this ih(1)] click_run.click_raised[OF ih(2)[unfolded a(1)] safe klt] ih(3)
          show ?thesis by fastforce
        next
          fix e assume a: "k1 = k" "extends (w\<lparr>drv := d\<rparr>) w1 [pass_record k t, fail_record k t e]
                           [EvClick b t True, EvSleep 1, EvBack False]"
          from a(2) have "extends w w1 [pass_record k t, fail_record k t e]
                           [EvClick b t True, EvSleep 1, EvBack False]" by simp
          from extends_trans[OF this ih(1)] click_run.back_raised[OF ih(2)[unfolded a(1)] safe klt] ih(3)
          show ?thesis by fastforce
        next
          assume a: "k1 = Suc k" "extends (w\<lparr>drv := d\<rparr>) w1 [pass_record k t]
                           [EvClick b t True, EvSleep 1, EvBack True, EvSleep 1]"
          from a(2) have "extends w w1 [pass_record k t]
                           [EvClick b t True, EvSleep 1, EvBack True, EvSleep 1]" by simp
          from extends_trans[OF this ih(1)] click_run.completed[OF ih(2)[unfolded a(1)] safe klt] ih(3)
          show ?thesis by fastforce
        qed
      qed
    qed
  qed
qed

lemma safe_click_buttons_body_run:
  assumes "safe_click_buttons_body E w = (r, w')"
  shows "\<exists>recs evs k'. click_run 0 recs evs k' \<and>
           ((\<exists>e. r = Inl e \<and> extends w w' recs evs)
            \<or> (r = Inr () \<and> k' = 0 \<and> extends w w' (recs @ [summary_record]) evs)
            \<or> (r = Inr () \<and> 0 < k' \<and> extends w w' recs evs))"
proof -
  obtain fr d where fe: "find_elements E ''button'' (drv w) = (fr, d)"
    by (cases "find_elements E ''button'' (drv w)")
  define buttons where "buttons = (case fr of Inl e \<Rightarrow> [] | Inr bs \<Rightarrow> bs)"
  obtain lr w1 where cl: "click_loop E buttons 0 (w\<lparr>drv := d\<rparr>) = (lr, w1)"
    by (cases "click_loop E buttons 0 (w\<lparr>drv := d\<rparr>)")
  from click_loop_run[OF cl] obtain recs evs k' where
    run: "extends w w1 recs evs" "click_run 0 recs evs k'" "\<forall>j. lr = Inr j \<longrightarrow> j = k'"
    by auto
  show ?thesis
  proof (cases lr)
    case (Inl e)
    with assms fe cl have "r = Inl e" "w' = w1"
      by (auto simp: safe_click_buttons_body_def buttons_def)
    with run show ?thesis by blast
  next
    case (Inr j)
    with run have j: "j = k'" by simp
    show ?thesis
    proof (cases "j = 0")
      case True
      with assms fe cl Inr have rw: "r = Inr ()"
        "w' = page_add ''button_clicks'' True ''No safe clickable buttons found or none clicked'' w1"
        by (auto simp: safe_click_buttons_body_def buttons_def)
      have "extends w1 w' [summary_record] []"
        unfolding rw summary_record_def by (rule extends_page_add)
      from extends_trans[OF run(1) this] have "extends w w' (recs @ [summary_record]) evs" by simp
      with run(2) rw(1) True j show ?thesis by blast
    next
      case False
      with assms fe cl Inr have "r = Inr ()" "w' = w1"
        by (auto simp: safe_click_buttons_body_def buttons_def)
      with run False j show ?thesis by blast
    qed
  qed
qed

subsection \<open>Properties of traces\<close>

lemma button_click_name_not_summary [simp]: "button_click_name k \<noteq> ''button_clicks''"
  by (simp add: button_click_name_def)

lemma button_click_names: "button_click_name 0 = ''button_click_0''"
  "button_click_name (Suc 0) = ''button_click_1''" "button_click_name 2 = ''button_click_2''"
  by code_simp+

lemma button_click_name_inj: "i < 3 \<Longrightarrow> j < 3 \<Longrightarrow> button_click_name i = button_click_name j \<Longrightarrow> i = j"
proof -
  assume "i < 3" "j < 3"
  then have "i \<in> {0, Suc 0, 2}" "j \<in> {0, Suc 0, 2}" by auto
  moreover assume "button_click_name i = button_click_name j"
  ultimately show ?thesis by (auto simp: button_click_names)
qed

lemma record_simps [simp]:
  "name (pass_record k t) = button_click_name k" "passed (pass_record k t)"
  "message (pass_record k t) = clicked_message t"
  "name (fail_record k t e) = button_click_name k" "\<not> passed (fail_record k t e)"
  "message (fail_record k t e) = could_not_click_message t e"
  "\<not> is_summary (pass_record k t)" "\<not> is_summary (fail_record k t e)"
  "is_summary summary_record" "passed summary_record" "name summary_record = ''button_clicks''"
  by (simp_all add: pass_record_def fail_record_def summary_record_def is_summary_def)

lemma click_run_bound: "click_run k recs evs k' \<Longrightarrow> k \<le> 3 \<Longrightarrow> k' \<le> 3"
  by (induction rule: click_run.induct) auto

lemma click_run_completed: "click_run k recs evs k' \<Longrightarrow> k' = k + length (filter back_returned evs)"
  by (induction rule: click_run.induct) auto




lemma click_run_no_summary: "click_run k recs evs k' \<Longrightarrow> filter is_summary recs = []"
  by (induction rule: click_run.induct) auto

lemma click_run_names:
  "click_run k recs evs k' \<Longrightarrow> \<forall>r\<in>set recs. passed r \<Longrightarrow> map name recs = map button_click_name [k..<k']"
proof (induction rule: click_run.induct)
  case (completed k recs evs k' t b)
  from click_run_completed[OF completed.hyps(1)] have "Suc k \<le> k'" by simp
  with completed show ?case by (simp add: upt_conv_Cons)
qed auto

lemma click_run_distinct:
  assumes "click_run k recs evs k'" "k \<le> 3" "\<forall>r\<in>set recs. passed r"
  shows "distinct (map name recs)"
proof -
  from assms have n: "map name recs = map button_click_name [k..<k']" by (simp add: click_run_names)
  from assms have "k' \<le> 3" by (simp add: click_run_bound)
  then have "inj_on button_click_name (set [k..<k'])"
    by (auto intro!: inj_onI button_click_name_inj)
  then show ?thesis by (simp add: n distinct_map)
qed

subsection \<open>The safe-text predicate\<close>

lemma is_safe_text_empty: "is_safe_text [] = True"
  by (simp add: is_safe_text_def)

lemma re_search_sublist: "re_search p t \<longleftrightarrow> sublist p t"
  by (induction t) (auto simp: sublist_Cons_right)

lemma blacklist_loop_iff: "blacklist_loop ps t \<longleftrightarrow> (\<forall>p\<in>set ps. \<not> sublist p t)"
  by (induction ps) (auto simp: re_search_sublist)

lemma is_safe_text_iff: "is_safe_text t \<longleftrightarrow> (\<forall>p\<in>set SAFE_CLICK_BLACKLIST. \<not> sublist p (lower t))"
proof (cases "t = []")
  case True
  then show ?thesis by (simp add: is_safe_text_def lower_def SAFE_CLICK_BLACKLIST_def)
next
  case False
  then show ?thesis by (simp add: is_safe_text_def blacklist_loop_iff)
qed

lemma derive_text_reads_as:
  "derive_text E b d = (Inr t, d') \<Longrightarrow> reads_as E b t"
proof -
  assume a: "derive_text E b d = (Inr t, d')"
  obtain rt d1 where et: "element_text E b d = (rt, d1)" by (cases "element_text E b d")
  show ?thesis
  proof (cases rt)
    case (Inl e)
    with a et show ?thesis by (simp add: derive_text_def)
  next
    case (Inr vt)
    show ?thesis
    proof (cases "vt = []")
      case False
      with a et Inr have "t = vt" by (simp add: derive_text_def)
      with et Inr False show ?thesis unfolding reads_as_def by blast
    next
      case True
      obtain ra d2 where ga: "get_attribute E b ''aria-label'' d1 = (ra, d2)"
        by (cases "get_attribute E b ''aria-label'' d1")
      show ?thesis
      proof (cases ra)
        case (Inl e)
        with a et Inr True ga show ?thesis by (simp add: derive_text_def)
      next
        case r: (Inr al)
        with a et Inr True ga have "t = (case al of None \<Rightarrow> [] | Some s \<Rightarrow> s)"
          by (simp add: derive_text_def)
        with et Inr True ga r show ?thesis unfolding reads_as_def by blast
      qed
    qed
  qed
qed

lemma click_trace_append:
  "click_trace E r1 e1 \<Longrightarrow> click_trace E r2 e2 \<Longrightarrow> click_trace E (r1 @ r2) (e1 @ e2)"
  unfolding click_trace_def by (simp add: ball_Un) blast

lemma click_trace_simps [simp]: "click_trace E [] []" "click_trace E [] [EvSleep n]"
  "click_trace E [summary_record] []"
  by (simp_all add: click_trace_def)

lemma try_click_trace:
  assumes "try_click E b t k w = (k', w')" "reads_as E b t" "is_safe_text t"
  shows "\<exists>recs evs. extends w w' recs evs \<and> click_trace E recs evs"
proof -
  from try_click_cases[OF assms(1)] show ?thesis
  proof (elim disjE exE conjE)
    fix e assume e: "extends w w' [fail_record k t e] [EvClick b t False]"
    have "click_trace E [fail_record k t e] [EvClick b t False]"
      using assms(2,3) by (auto simp: click_trace_def)
    with e show ?thesis by blast
  next
    fix e assume e: "extends w w' [pass_record k t, fail_record k t e]
                           [EvClick b t True, EvSleep 1, EvBack False]"
    have "click_trace E [pass_record k t, fail_record k t e]
                           [EvClick b t True, EvSleep 1, EvBack False]"
      using assms(2,3) by (auto simp: click_trace_def)
    with e show ?thesis by blast
  next
    assume e: "extends w w' [pass_record k t]
                           [EvClick b t True, EvSleep 1, EvBack True, EvSleep 1]"
    have "click_trace E [pass_record k t]
                           [EvClick b t True, EvSleep 1, EvBack True, EvSleep 1]"
      using assms(2,3) by (auto simp: click_trace_def)
    with e show ?thesis by blast
  qed
qed

lemma click_loop_trace:
  "click_loop E bs k w = (r, w') \<Longrightarrow> \<exists>recs evs. extends w w' recs evs \<and> click_trace E recs evs"
proof (induction bs arbitrary: k w)
  case Nil
  then have "w' = w" by simp
  then show ?case using extends_refl[of w] click_trace_simps(1)[of E] by blast
next
  case (Cons b bs)
  show ?case
  proof (cases "k \<ge> 3")
    case True
    with Cons.prems have "w' = w" by simp
    then show ?thesis using extends_refl[of w] click_trace_simps(1)[of E] by blast
  next
    case k3: False
    obtain rt d where dt: "derive_text E b (drv w) = (rt, d)" by (cases "derive_text E b (drv w)")
    show ?thesis
    proof (cases rt)
      case (Inl e)
      with Cons.prems k3 dt have "w' = w\<lparr>drv := d\<rparr>" by auto
      then have "extends w w' [] []" by (simp add: extends_def)
      then show ?thesis using click_trace_simps(1)[of E] by blast
    next
      case (Inr t)
      show ?thesis
      proof (cases "is_safe_text t")
        case False
        with Cons.prems k3 dt Inr have "click_loop E bs k (w\<lparr>drv := d\<rparr>) = (r, w')" by simp
        from Cons.IH[OF this] show ?thesis by simp
      next
        case safe: True
        obtain k1 w1 where tc: "try_click E b t k (w\<lparr>drv := d\<rparr>) = (k1, w1)"
          by (cases "try_click E b t k (w\<lparr>drv := d\<rparr>)")
        with Cons.prems k3 dt Inr safe have "click_loop E bs k1 w1 = (r, w')" by simp
        from Cons.IH[OF this] obtain recs2 evs2 where
          ih: "extends w1 w' recs2 evs2" "click_trace E recs2 evs2" by blast
        from dt Inr have "reads_as E b t" by (auto intro: derive_text_reads_as)
        from try_click_trace[OF tc this safe] obtain recs1 evs1 where
          st: "extends w w1 recs1 evs1" "click_trace E recs1 evs1" by auto
        from extends_trans[OF st(1) ih(1)] click_trace_append[OF st(2) ih(2)]
        show ?thesis by blast
      qed
    qed
  qed
qed

lemma safe_click_buttons_click_trace:
  assumes "safe_click_buttons E w = (r, w')"
  shows "\<exists>recs evs. extends w w' recs evs \<and> click_trace E recs evs"
proof -
  let ?R = "\<lambda>w w'. \<exists>recs evs. extends w w' recs evs \<and> click_trace E recs evs"
  have "case r of Inl e \<Rightarrow> ?R w w' | Inr v \<Rightarrow> ?R w w'"
  proof (rule retry_on_stale_rel[where func="safe_click_buttons_body E" and E=E])
    fix a ra a' assume b: "safe_click_buttons_body E a = (ra, a')"
    obtain fr d where fe: "find_elements E ''button'' (drv a) = (fr, d)"
      by (cases "find_elements E ''button'' (drv a)")
    define buttons where "buttons = (case fr of Inl e \<Rightarrow> [] | Inr bs \<Rightarrow> bs)"
    obtain lr a1 where cl: "click_loop E buttons 0 (a\<lparr>drv := d\<rparr>) = (lr, a1)"
      by (cases "click_loop E buttons 0 (a\<lparr>drv := d\<rparr>)")
    from click_loop_trace[OF cl] obtain recs evs where
      t: "extends a a1 recs evs" "click_trace E recs evs" by auto
    have "a' = a1 \<or> a' = page_add ''button_clicks'' True
                  ''No safe clickable buttons found or none clicked'' a1"
      using b fe cl by (auto simp: safe_click_buttons_body_def buttons_def split: sum.splits if_splits)
    then have "?R a a'"
    proof
      assume "a' = a1" with t show ?thesis by blast
    next
      assume a': "a' = page_add ''button_clicks'' True
                  ''No safe clickable buttons found or none clicked'' a1"
      have "extends a1 a' [summary_record] []"
        unfolding a' summary_record_def by (rule extends_page_add)
      from extends_trans[OF t(1) this] click_trace_append[OF t(2) click_trace_simps(3)[of E]]
      show ?thesis by blast
    qed
    then show "case ra of Inl e \<Rightarrow> ?R a a' | Inr v \<Rightarrow> ?R a a'" by (simp split: sum.splits)
  next
    fix a :: "'a world" show "?R a a" using extends_refl[of a] click_trace_simps(1)[of E] by blast
  next
    fix a b c :: "'a world" assume "?R a b" "?R b c"
    then show "?R a c" using extends_trans click_trace_append by blast
  next
    fix a b c :: "'a world" assume "?R a b" "?R b c"
    then show "?R a c" using extends_trans click_trace_append by blast
  next
    fix a :: "'a world" show "?R a (sleep E 1 a)"
      using extends_sleep[of a E 1] click_trace_simps(2)[of E 1] by blast
  next
    show "retry_on_stale E (safe_click_buttons_body E) w = (r, w')"
      using assms by (simp add: safe_click_buttons_def)
  qed
  then show ?thesis by (simp split: sum.splits)
qed

lemma reads_as_stable:
  assumes "reads_as E b t"
      and "\<forall>d. fst (element_text E b d) = Inr vt"
      and "vt = [] \<longrightarrow> (\<forall>d. fst (get_attribute E b ''aria-label'' d) = Inr al)"
  shows "t = (if vt \<noteq> [] then vt else case al of None \<Rightarrow> [] | Some s \<Rightarrow> s)"
proof -
  from assms(1) consider
    (vis) d d1 where "element_text E b d = (Inr t, d1)" "t \<noteq> []"
  | (aria) d d1 a d2 where "element_text E b d = (Inr [], d1)"
      "get_attribute E b ''aria-label'' d1 = (Inr a, d2)" "t = (case a of None \<Rightarrow> [] | Some s \<Rightarrow> s)"
    unfolding reads_as_def by blast
  then show ?thesis
  proof cases
    case vis
    from vis(1) assms(2) have "Inr t = (Inr vt :: exn + string)" by (metis fst_conv)
    with vis(2) show ?thesis by simp
  next
    case aria
    from aria(1) assms(2) have "(Inr [] :: exn + string) = Inr vt" by (metis fst_conv)
    then have v: "vt = []" by simp
    with assms(3) aria(2) have "(Inr a :: exn + string option) = Inr al" by (metis fst_conv)
    with v aria(3) show ?thesis by simp
  qed
qed


subsection \<open>Evaluating the examples\<close>

lemmas run_defs = safe_click_buttons_def safe_click_buttons_body_def retry_on_stale_def
  numeral_3_eq_3 static_env_def fresh_world_def derive_text_def try_click_def sleep_def
  page_add_def add_def PageResult_init_def bare_raise_def

lemma safe_texts: "is_safe_text ''Next''" "is_safe_text ''Open''" "is_safe_text ''OK''"
  by code_simp+

subsection \<open>The broken-link check\<close>

lemma probes_head_events [simp]: "probes (head_events ps) = ps"
  by (induction ps) (auto simp: head_events_def)

lemma head_events_Cons [simp]: "head_events ((l, r) # ps) = EvHead l r # head_events ps"
  by (simp add: head_events_def)

lemma broken_of_Cons [simp]:
  "broken_of ((l, r) # ps) = (if is_broken r then (l, problem_of r) # broken_of ps else broken_of ps)"
  by (simp add: broken_of_def)

lemma broken_of_Nil [simp]: "broken_of [] = []" "head_events [] = []"
  by (simp_all add: broken_of_def head_events_def)

lemma head_loop_run:
  "head_loop E ls broken checked w = (broken', w') \<Longrightarrow>
     \<exists>ps. extends w w' [] (head_events ps) \<and> map fst ps = take (20 - checked) ls
          \<and> broken' = broken @ broken_of ps"
proof (induction ls arbitrary: broken checked w)
  case Nil
  then show ?case using extends_refl[of w] by (intro exI[of _ "[]"]) simp
next
  case (Cons link ls)
  show ?case
  proof (cases "checked \<ge> 20")
    case True
    with Cons.prems show ?thesis using extends_refl[of w] by (intro exI[of _ "[]"]) simp
  next
    case False
    obtain res d where rh: "requests_head E link 8 (drv w) = (res, d)"
      by (cases "requests_head E link 8 (drv w)")
    let ?w1 = "w\<lparr>drv := d, log := log w @ [EvHead link res]\<rparr>"
    let ?b1 = "if is_broken res then broken @ [(link, problem_of res)] else broken"
    from Cons.prems False rh have "head_loop E ls ?b1 (checked + 1) ?w1 = (broken', w')"
      by (cases res) auto
    from Cons.IH[OF this] obtain ps where
      ih: "extends ?w1 w' [] (head_events ps)" "map fst ps = take (20 - (checked + 1)) ls"
          "broken' = ?b1 @ broken_of ps" by blast
    have e1: "extends w ?w1 [] [EvHead link res]" by (simp add: extends_def)
    from extends_trans[OF e1 ih(1)] have "extends w w' [] (head_events ((link, res) # ps))" by simp
    moreover have "20 - checked = Suc (20 - (checked + 1))" using False by simp
    with ih(2) have "map fst ((link, res) # ps) = take (20 - checked) (link # ls)" by simp
    moreover from ih(3) have "broken' = broken @ broken_of ((link, res) # ps)" by simp
    ultimately show ?thesis by blast
  qed
qed

lemma discover_loop_error:
  "discover_loop L self base as acc = Inl e \<Longrightarrow> \<exists>m. e = ValueError m"
  by (induction as arbitrary: acc) (auto simp: Let_def split: if_splits sum.splits)

lemma check_internal_links_body_run:
  assumes "check_internal_links_body L E self src base w = (r, w')"
  shows "(\<exists>m. discover_links L self src base = Inl (ValueError m) \<and> r = Inl (ValueError m) \<and> w' = w)
       \<or> (\<exists>links ps. discover_links L self src base = Inr links \<and> r = Inr ()
             \<and> map fst ps = take 20 (set_order L links)
             \<and> extends w w' [broken_links_record L (broken_of ps)] (head_events ps))"
proof (cases "discover_links L self src base")
  case (Inl e)
  then have "discover_loop L self base (anchor_hrefs L src) {} = Inl e"
    by (simp add: discover_links_def)
  from discover_loop_error[OF this] obtain m where "e = ValueError m" by blast
  with Inl assms show ?thesis by (simp add: check_internal_links_body_def)
next
  case (Inr links)
  obtain broken w1 where hl: "head_loop E (set_order L links) [] 0 w = (broken, w1)"
    by (cases "head_loop E (set_order L links) [] 0 w")
  from head_loop_run[OF hl] obtain ps where
    ps: "extends w w1 [] (head_events ps)" "map fst ps = take 20 (set_order L links)"
        "broken = broken_of ps" by auto
  from assms Inr hl have r: "r = Inr ()"
    by (auto simp: check_internal_links_body_def split: if_splits)
  have "extends w1 w' [broken_links_record L broken] []"
  proof (cases "broken = []")
    case True
    with assms Inr hl have "w' = page_add ''broken_links'' True
        ''No broken links found (checked up to 20)'' w1"
      by (simp add: check_internal_links_body_def)
    with True show ?thesis by (simp add: broken_links_record_def extends_page_add)
  next
    case False
    with assms Inr hl have "w' = page_add ''broken_links'' False (broken_message L broken) w1"
      by (simp add: check_internal_links_body_def)
    with False show ?thesis
      by (simp add: broken_links_record_def broken_message_def extends_page_add)
  qed
  from extends_trans[OF ps(1) this] have "extends w w' [broken_links_record L (broken_of ps)] (head_events ps)"
    by (simp add: ps(3))
  with Inr r ps(2) show ?thesis by blast
qed

lemma check_internal_links_run:
  assumes "check_internal_links L E self src base w = (r, w')"
  shows "check_internal_links_body L E self src base w = (r, w')"
proof -
  obtain r0 w0 where b: "check_internal_links_body L E self src base w = (r0, w0)"
    by (cases "check_internal_links_body L E self src base w")
  from check_internal_links_body_run[OF b] have ns: "\<And>e. r0 = Inl e \<Longrightarrow> \<not> is_stale e" by auto
  have "retry_on_stale E (check_internal_links_body L E self src base) w = (r0, w0)"
    using b by (rule retry_on_stale_not_stale) (rule ns)
  with assms b show ?thesis
    by (simp add: check_internal_links_def)
qed

subsection \<open>Link discovery\<close>

lemma split_hash_0_no_hash: "CHR ''#'' \<notin> set (split_hash_0 s)"
  by (auto simp: split_hash_0_def dest: set_takeWhileD)

lemma discover_loop_result:
  "discover_loop L self base as acc = Inr links \<Longrightarrow>
     links = acc \<union> {u. \<exists>a\<in>set as. contributes L self base a u}"
proof (induction as arbitrary: acc)
  case Nil
  then show ?case by simp
next
  case (Cons a as)
  show ?case
  proof (cases "prefix ''mailto:'' (strip a) \<or> prefix ''tel:'' (strip a)")
    case True
    with Cons.prems have "discover_loop L self base as acc = Inr links" by auto
    from Cons.IH[OF this] True show ?thesis by (auto simp: contributes_def)
  next
    case np: False
    show ?thesis
    proof (cases "urljoin L base (strip a)")
      case (Inl m)
      with Cons.prems np show ?thesis by simp
    next
      case (Inr absolute)
      show ?thesis
      proof (cases "prefix ''javascript:'' absolute \<or> \<not> same_domain L self (split_hash_0 absolute)")
        case True
        with Cons.prems np Inr have "discover_loop L self base as acc = Inr links"
          by (auto simp: Let_def split: if_splits)
        from Cons.IH[OF this] True np Inr show ?thesis by (auto simp: contributes_def)
      next
        case False
        with Cons.prems np Inr
        have "discover_loop L self base as (insert (split_hash_0 absolute) acc) = Inr links"
          by (auto simp: Let_def split: if_splits)
        from Cons.IH[OF this] False np Inr show ?thesis by (auto simp: contributes_def)
      qed
    qed
  qed
qed

lemma dropWhile_keeps_suffix:
  "ys \<noteq> [] \<Longrightarrow> \<not> P (hd ys) \<Longrightarrow> \<exists>zs. dropWhile P (xs @ ys) = zs @ ys"
proof (induction xs)
  case Nil
  then have "dropWhile P ys = [] @ ys" by (cases ys) auto
  then show ?case by auto
next
  case (Cons x xs)
  then obtain zs where zs: "dropWhile P (xs @ ys) = zs @ ys" by blast
  show ?case
  proof (cases "P x")
    case True
    with zs show ?thesis by simp
  next
    case False
    then have "dropWhile P ((x # xs) @ ys) = (x # xs) @ ys" by simp
    then show ?thesis by blast
  qed
qed

lemma strip_keeps_prefix:
  assumes "p \<noteq> []" "\<not> isspace (hd p)" "\<not> isspace (last p)" "prefix p a"
  shows "prefix p (strip a)"
proof -
  from assms(4) obtain r where a: "a = p @ r" by (auto simp: prefix_def)
  from assms(1,2) have d1: "dropWhile isspace a = a" unfolding a by (cases p) auto
  have "rev a = rev r @ rev p" by (simp add: a)
  moreover have "rev p \<noteq> []" "\<not> isspace (hd (rev p))" using assms(1,3) by (simp_all add: hd_rev)
  ultimately obtain zs where "dropWhile isspace (rev a) = zs @ rev p"
    using dropWhile_keeps_suffix[of "rev p" isspace "rev r"] by auto
  then have "strip a = p @ rev zs" by (simp add: strip_def d1)
  then show ?thesis by simp
qed

lemma strip_keeps_mailto_tel:
  "(prefix ''mailto:'' a \<longrightarrow> prefix ''mailto:'' (strip a)) \<and> (prefix ''tel:'' a \<longrightarrow> prefix ''tel:'' (strip a))"
proof -
  have s: "\<not> isspace CHR ''m''" "\<not> isspace CHR '':''" "\<not> isspace CHR ''t''" by code_simp+
  show ?thesis using strip_keeps_prefix[of "''mailto:''" a] strip_keeps_prefix[of "''tel:''" a] s
    by simp
qed

subsection \<open>Names of the appended records\<close>

lemma fill_and_submit_forms_run:
  assumes "fill_and_submit_forms E w = (r, w')"
  shows "r = Inr () \<and> (\<exists>m. extends w w' [\<lparr>name = ''forms_detected'', passed = True, message = m\<rparr>] [])"
proof -
  obtain r0 w0 where b: "fill_and_submit_forms_body E w = (r0, w0)"
    by (cases "fill_and_submit_forms_body E w")
  obtain fr d where fe: "find_elements E ''form'' (drv w) = (fr, d)"
    by (cases "find_elements E ''form'' (drv w)")
  from b fe have r0: "r0 = Inr ()"
    by (auto simp: fill_and_submit_forms_body_def Let_def split: if_splits)
  from b fe obtain m where "w0 = page_add ''forms_detected'' True m (w\<lparr>drv := d\<rparr>)"
    by (auto simp: fill_and_submit_forms_body_def Let_def split: if_splits)
  then have e: "extends w w0 [\<lparr>name = ''forms_detected'', passed = True, message = m\<rparr>] []"
    using extends_page_add[of "w\<lparr>drv := d\<rparr>" "''forms_detected''" True m] by simp
  have "retry_on_stale E (fill_and_submit_forms_body E) w = (r0, w0)"
    using b by (rule retry_on_stale_not_stale) (simp add: r0)
  with assms r0 e show ?thesis by (auto simp: fill_and_submit_forms_def)
qed

lemma safe_click_buttons_summary:
  assumes "safe_click_buttons E w = (r, w')"
  shows "\<exists>recs evs. extends w w' recs evs \<and> length (filter is_summary recs) \<le> 1"
proof -
  let ?R0 = "\<lambda>w w'. \<exists>recs evs. extends w w' recs evs \<and> filter is_summary recs = []"
  let ?R1 = "\<lambda>w w'. \<exists>recs evs. extends w w' recs evs \<and> length (filter is_summary recs) \<le> 1"
  have "case r of Inl e \<Rightarrow> ?R0 w w' | Inr v \<Rightarrow> ?R1 w w'"
  proof (rule retry_on_stale_rel[where func="safe_click_buttons_body E" and E=E])
    fix a ra a' assume b: "safe_click_buttons_body E a = (ra, a')"
    from safe_click_buttons_body_run[OF b] obtain recs evs k' where
      run: "click_run 0 recs evs k'" and
      ex: "(\<exists>e. ra = Inl e \<and> extends a a' recs evs)
            \<or> (ra = Inr () \<and> extends a a' (recs @ [summary_record]) evs)
            \<or> (ra = Inr () \<and> extends a a' recs evs)" by blast
    note ns = click_run_no_summary[OF run]
    from ex show "case ra of Inl e \<Rightarrow> ?R0 a a' | Inr v \<Rightarrow> ?R1 a a'"
    proof (elim disjE exE conjE)
      fix e assume "ra = Inl e" "extends a a' recs evs"
      with ns show ?thesis by auto
    next
      assume "ra = Inr ()" "extends a a' (recs @ [summary_record]) evs"
      moreover have "length (filter is_summary (recs @ [summary_record])) \<le> 1" using ns by simp
      ultimately show ?thesis by auto
    next
      assume "ra = Inr ()" "extends a a' recs evs"
      moreover have "length (filter is_summary recs) \<le> 1" using ns by simp
      ultimately show ?thesis by auto
    qed
  next
    fix a :: "'a world" have "filter is_summary [] = []" by simp
    with extends_refl[of a] show "?R0 a a" by blast
  next
    fix a b c :: "'a world" assume "?R0 a b" "?R0 b c"
    then obtain r1 e1 r2 e2 where "extends a b r1 e1" "filter is_summary r1 = []"
      "extends b c r2 e2" "filter is_summary r2 = []" by blast
    then have "extends a c (r1 @ r2) (e1 @ e2)" "filter is_summary (r1 @ r2) = []"
      by (simp_all add: extends_trans)
    then show "?R0 a c" by blast
  next
    fix a b c :: "'a world" assume "?R0 a b" "?R1 b c"
    then obtain r1 e1 r2 e2 where "extends a b r1 e1" "filter is_summary r1 = []"
      "extends b c r2 e2" "length (filter is_summary r2) \<le> 1" by blast
    then have "extends a c (r1 @ r2) (e1 @ e2)" "length (filter is_summary (r1 @ r2)) \<le> 1"
      by (simp_all add: extends_trans)
    then show "?R1 a c" by blast
  next
    fix a :: "'a world" have "filter is_summary [] = []" by simp
    with extends_sleep[of a E 1] show "?R0 a (sleep E 1 a)" by blast
  next
    show "retry_on_stale E (safe_click_buttons_body E) w = (r, w')"
      using assms by (simp add: safe_click_buttons_def)
  qed
  then show ?thesis by (cases r) auto
qed

lemma safe_click_buttons_body_distinct:
  assumes "safe_click_buttons_body E w = (r, w')" "\<forall>t\<in>set (appended w w'). passed t"
  shows "distinct (map name (appended w w'))"
proof -
  from safe_click_buttons_body_run[OF assms(1)] obtain recs evs k' where
    run: "click_run 0 recs evs k'" and
    ex: "(k' = 0 \<and> extends w w' (recs @ [summary_record]) evs) \<or> extends w w' recs evs" by blast
  from ex show ?thesis
  proof
    assume "k' = 0 \<and> extends w w' (recs @ [summary_record]) evs"
    then have z: "k' = 0" and obs: "appended w w' = recs @ [summary_record]"
      using extends_observed by blast+
    with assms(2) have "\<forall>r\<in>set recs. passed r" by simp
    from click_run_names[OF run this] z have "recs = []" by simp
    with obs show ?thesis by simp
  next
    assume "extends w w' recs evs"
    then have obs: "appended w w' = recs" using extends_observed by blast
    with assms(2) have "\<forall>r\<in>set recs. passed r" by simp
    with click_run_distinct[OF run] show ?thesis unfolding obs by simp
  qed
qed

subsection \<open>Candidates are reached\<close>


lemma emitted_drv [simp]: "emitted (w\<lparr>drv := d\<rparr>) w' = emitted w w'"
  by (simp add: emitted_def)



section \<open>The claims\<close>

text \<open>
  C1. After three consecutive staleness failures the wrapper does not propagate the
  staleness failure: the bare \<^verbatim>\<open>raise\<close> after the loop finds no active exception, and the
  caller receives \<^verbatim>\<open>RuntimeError\<close>. Here \<^verbatim>\<open>safe_click_buttons\<close> runs on a page whose only
  button raises staleness whenever its text is read: three attempts, a pause of one second
  after each, no record, and a \<^verbatim>\<open>RuntimeError\<close>.
\<close>

theorem retry_exhausted_raises_RuntimeError:
  "safe_click_buttons detached_button_page fresh_world
     = (Inl (RuntimeError ''No active exception to reraise''),
        fresh_world\<lparr>log := [EvSleep 1, EvSleep 1, EvSleep 1]\<rparr>)"
  by (simp add: safe_click_buttons_def safe_click_buttons_body_def retry_on_stale_def
        numeral_3_eq_3 detached_button_page_def static_env_def fresh_world_def derive_text_def
        sleep_def bare_raise_def PageResult_init_def)

text \<open>
  C2. Whenever link discovery returns its set of links, the broken-link check returns
  normally, requests exactly the first 20 links in the iteration order of the set (fewer if
  there are fewer), all of them discovered links, and does nothing else outside; it appends
  exactly one record named \<^verbatim>\<open>broken_links\<close>, which is a pass if and only if no requested link
  is broken; a failed record carries the number of broken links and \<^verbatim>\<open>repr\<close> of the first
  three.
\<close>

theorem check_internal_links_record:
  assumes disc: "discover_links L self src base = Inr links"
      and ord: "set (set_order L links) = links"
      and run: "check_internal_links L E self src base w = (r, w')"
  shows "r = Inr ()
       \<and> emitted w w' = head_events (probes (emitted w w'))
       \<and> map fst (probes (emitted w w')) = take 20 (set_order L links)
       \<and> length (probes (emitted w w')) \<le> 20
       \<and> fst ` set (probes (emitted w w')) \<subseteq> links
       \<and> appended w w' = [broken_links_record L (broken_of (probes (emitted w w')))]
       \<and> (passed (broken_links_record L (broken_of (probes (emitted w w'))))
            \<longleftrightarrow> \<not> (\<exists>p\<in>set (probes (emitted w w')). is_broken (snd p)))"
proof -
  from check_internal_links_body_run[OF check_internal_links_run[OF run]] disc
  obtain ps where r: "r = Inr ()" and m: "map fst ps = take 20 (set_order L links)"
    and e: "extends w w' [broken_links_record L (broken_of ps)] (head_events ps)" by auto
  from extends_observed[OF e] have obs: "appended w w' = [broken_links_record L (broken_of ps)]"
    "emitted w w' = head_events ps" by simp_all
  have len: "length ps \<le> 20" using arg_cong[OF m, of length] by simp
  have "set (map fst ps) \<subseteq> set (set_order L links)" unfolding m by (rule set_take_subset)
  then have sub: "fst ` set ps \<subseteq> links" using ord by simp
  have "(broken_of ps = []) \<longleftrightarrow> \<not> (\<exists>p\<in>set ps. is_broken (snd p))"
    by (auto simp: broken_of_def filter_empty_conv)
  then have pass: "passed (broken_links_record L (broken_of ps)) \<longleftrightarrow> \<not> (\<exists>p\<in>set ps. is_broken (snd p))"
    by (simp add: broken_links_record_def)
  show ?thesis unfolding obs probes_head_events using r m len sub pass by simp
qed

theorem check_internal_links_record_witness:
  "check_internal_links demo_lib demo_net demo_self demo_page ''http://example.com/'' fresh_world
     = (Inr (), fresh_world\<lparr>
          page_result := (page_result fresh_world)\<lparr>tests :=
            [\<lparr>name = ''broken_links'', passed = False,
              message = ''1 broken or problematic links (sample: [('' @ [CHR 0x27]
                 @ ''http://example.com/gone'' @ [CHR 0x27] @ '', 404)])''\<rparr>]\<rparr>,
          log := [EvHead ''http://example.com/gone'' (Inr 404),
                  EvHead ''http://example.com/about'' (Inr 200)]\<rparr>)
   \<and> length (probes [EvHead ''http://example.com/gone'' (Inr 404),
                      EvHead ''http://example.com/about'' (Inr 200)]) \<le> 20"
proof -
  let ?evs = "[EvHead ''http://example.com/gone'' (Inr 404),
               EvHead ''http://example.com/about'' (Inr 200)]"
  let ?w = "fresh_world\<lparr>
          page_result := (page_result fresh_world)\<lparr>tests :=
            [\<lparr>name = ''broken_links'', passed = False,
              message = ''1 broken or problematic links (sample: [('' @ [CHR 0x27]
                 @ ''http://example.com/gone'' @ [CHR 0x27] @ '', 404)])''\<rparr>]\<rparr>,
          log := ?evs\<rparr>"
  have d: "discover_links demo_lib demo_self demo_page ''http://example.com/''
     = Inr {''http://example.com/about'', ''http://example.com/gone''}"
    by code_simp
  have o: "set (set_order demo_lib {''http://example.com/about'', ''http://example.com/gone''})
     = {''http://example.com/about'', ''http://example.com/gone''}"
    by (auto simp: demo_lib_def)
  have run: "check_internal_links demo_lib demo_net demo_self demo_page ''http://example.com/'' fresh_world
     = (Inr (), ?w)"
    by code_simp
  have em: "emitted fresh_world ?w = ?evs" by (simp add: emitted_def fresh_world_def)
  from check_internal_links_record[OF d o run]
  have "length (probes (emitted fresh_world ?w)) \<le> 20" by blast
  with run show ?thesis unfolding em by blast
qed

text \<open>
  When URL resolution raises on an anchor, the check raises \<^verbatim>\<open>ValueError\<close> and appends no
  record: the claim as stated for every page source fails on this page.
\<close>

theorem check_internal_links_discovery_raises:
  "check_internal_links demo_lib demo_net demo_self bad_page ''http://example.com/'' fresh_world
     = (Inl (ValueError ''Invalid IPv6 URL''), fresh_world)"
  by code_simp

text \<open>
  C3. Safe-click probing never calls \<^verbatim>\<open>click()\<close> on an element whose derived text (the
  visible text, or the \<^verbatim>\<open>aria-label\<close> attribute when the visible text is empty) contains a
  blacklist pattern, case-insensitively, and appends no click record for it. In every run,
  retries included: the text of each click event was read from the clicked element,
  visible text first, and contains no blacklist pattern after lower-casing; each click
  record belongs to a click event and names its text; and an element whose visible text
  and label are the same in every state of the browser, with a derived text that contains
  a blacklist pattern, has no click event. The text \<^verbatim>\<open>Logout Now\<close> contains \<^verbatim>\<open>logout\<close> and is
  not safe.
\<close>

theorem safe_click_never_clicks_blacklisted:
  assumes "safe_click_buttons E w = (r, w')"
  shows "(\<forall>b t ok. EvClick b t ok \<in> set (emitted w w') \<longrightarrow>
            reads_as E b t \<and> (\<forall>p\<in>set SAFE_CLICK_BLACKLIST. \<not> sublist p (lower t)))
       \<and> (\<forall>rec\<in>set (appended w w'). name rec = ''button_clicks'' \<or>
            (\<exists>j t e b ok. EvClick b t ok \<in> set (emitted w w')
                      \<and> (\<forall>p\<in>set SAFE_CLICK_BLACKLIST. \<not> sublist p (lower t))
                      \<and> (rec = pass_record j t \<or> rec = fail_record j t e)))
       \<and> (\<forall>b vt al.
            (\<forall>d. fst (element_text E b d) = Inr vt)
            \<and> (vt = [] \<longrightarrow> (\<forall>d. fst (get_attribute E b ''aria-label'' d) = Inr al))
            \<and> (\<exists>p\<in>set SAFE_CLICK_BLACKLIST.
                  sublist p (lower (if vt \<noteq> [] then vt else case al of None \<Rightarrow> [] | Some s \<Rightarrow> s)))
            \<longrightarrow> (\<forall>t ok. EvClick b t ok \<notin> set (emitted w w')))
       \<and> \<not> is_safe_text ''Logout Now'' \<and> sublist ''logout'' (lower ''Logout Now'')"
proof -
  from safe_click_buttons_click_trace[OF assms] obtain recs evs where
    ex: "extends w w' recs evs" and ct: "click_trace E recs evs" by blast
  from extends_observed[OF ex] have obs: "appended w w' = recs" "emitted w w' = evs" by simp_all
  have lo: "\<not> is_safe_text ''Logout Now''" by code_simp
  have sl: "sublist ''logout'' (lower ''Logout Now'')" by code_simp
  from ct have a: "\<forall>b t ok. EvClick b t ok \<in> set evs \<longrightarrow>
      reads_as E b t \<and> (\<forall>p\<in>set SAFE_CLICK_BLACKLIST. \<not> sublist p (lower t))"
    unfolding click_trace_def is_safe_text_iff by blast
  from ct have b0: "\<forall>rec\<in>set recs. is_summary rec \<or>
        (\<exists>j t b ok. EvClick b t ok \<in> set evs \<and> (rec = pass_record j t \<or> (\<exists>e. rec = fail_record j t e)))"
    unfolding click_trace_def by blast
  have b: "\<forall>rec\<in>set recs. name rec = ''button_clicks'' \<or>
            (\<exists>j t e b ok. EvClick b t ok \<in> set evs
                      \<and> (\<forall>p\<in>set SAFE_CLICK_BLACKLIST. \<not> sublist p (lower t))
                      \<and> (rec = pass_record j t \<or> rec = fail_record j t e))"
  proof
    fix rec assume "rec \<in> set recs"
    with b0 consider "is_summary rec"
      | j t b ok e where "EvClick b t ok \<in> set evs" "rec = pass_record j t \<or> rec = fail_record j t e"
      by blast
    then show "name rec = ''button_clicks'' \<or>
            (\<exists>j t e b ok. EvClick b t ok \<in> set evs
                      \<and> (\<forall>p\<in>set SAFE_CLICK_BLACKLIST. \<not> sublist p (lower t))
                      \<and> (rec = pass_record j t \<or> rec = fail_record j t e))"
    proof cases
      case 1 then show ?thesis by (simp add: is_summary_def)
    next
      case 2
      from a 2(1) have "\<forall>p\<in>set SAFE_CLICK_BLACKLIST. \<not> sublist p (lower t)" by blast
      with 2 show ?thesis by blast
    qed
  qed
  have c: "\<forall>b vt al.
            (\<forall>d. fst (element_text E b d) = Inr vt)
            \<and> (vt = [] \<longrightarrow> (\<forall>d. fst (get_attribute E b ''aria-label'' d) = Inr al))
            \<and> (\<exists>p\<in>set SAFE_CLICK_BLACKLIST.
                  sublist p (lower (if vt \<noteq> [] then vt else case al of None \<Rightarrow> [] | Some s \<Rightarrow> s)))
            \<longrightarrow> (\<forall>t ok. EvClick b t ok \<notin> set evs)"
  proof (intro allI impI notI, elim conjE)
    fix b vt al t ok
    assume st: "\<forall>d. fst (element_text E b d) = Inr vt"
      "vt = [] \<longrightarrow> (\<forall>d. fst (get_attribute E b ''aria-label'' d) = Inr al)"
      and m: "\<exists>p\<in>set SAFE_CLICK_BLACKLIST.
                  sublist p (lower (if vt \<noteq> [] then vt else case al of None \<Rightarrow> [] | Some s \<Rightarrow> s))"
      and ev: "EvClick b t ok \<in> set evs"
    from a ev have ra: "reads_as E b t" and s: "\<forall>p\<in>set SAFE_CLICK_BLACKLIST. \<not> sublist p (lower t)"
      by blast+
    from reads_as_stable[OF ra st] have "t = (if vt \<noteq> [] then vt else case al of None \<Rightarrow> [] | Some s \<Rightarrow> s)" .
    with m s show False by blast
  qed
  from a b c lo sl show ?thesis unfolding obs by blast
qed

theorem safe_click_never_clicks_blacklisted_witness:
  "safe_click_buttons labelled_page fresh_world
     = (Inr (), fresh_world\<lparr>
          page_result := (page_result fresh_world)\<lparr>tests := [pass_record 0 ''OK'']\<rparr>,
          log := [EvClick 2 ''OK'' True, EvSleep 1, EvBack True, EvSleep 1]\<rparr>)
   \<and> EvClick 0 ''Logout Now'' True \<notin> set (emitted fresh_world (snd (safe_click_buttons labelled_page fresh_world)))
   \<and> EvClick 0 ''Menu'' True \<notin> set (emitted fresh_world (snd (safe_click_buttons labelled_page fresh_world)))
   \<and> EvClick 1 ''Delete item'' True \<notin> set (emitted fresh_world (snd (safe_click_buttons labelled_page fresh_world)))"
proof -
  let ?w = "fresh_world\<lparr>
          page_result := (page_result fresh_world)\<lparr>tests := [pass_record 0 ''OK'']\<rparr>,
          log := [EvClick 2 ''OK'' True, EvSleep 1, EvBack True, EvSleep 1]\<rparr>"
  have safe: "is_safe_text ''OK''" "\<not> is_safe_text ''Logout Now''" "\<not> is_safe_text ''Delete item''"
    by code_simp+
  have run: "safe_click_buttons labelled_page fresh_world = (Inr (), ?w)"
    by (simp add: run_defs labelled_page_def safe pass_record_def button_click_names)
  have v0: "\<forall>d. fst (element_text labelled_page 0 d) = Inr ''Logout Now''"
    by (simp add: labelled_page_def static_env_def)
  have a0: "''Logout Now'' = [] \<longrightarrow>
              (\<forall>d. fst (get_attribute labelled_page 0 ''aria-label'' d) = Inr (Some ''Menu''))"
    by simp
  have m0: "\<exists>p\<in>set SAFE_CLICK_BLACKLIST. sublist p (lower (if ''Logout Now'' \<noteq> [] then ''Logout Now''
               else case Some ''Menu'' of None \<Rightarrow> [] | Some s \<Rightarrow> s))"
    using safe(2) by (simp add: is_safe_text_iff)
  have v1: "\<forall>d. fst (element_text labelled_page 1 d) = Inr []"
    by (simp add: labelled_page_def static_env_def)
  have a1: "([] :: string) = [] \<longrightarrow>
              (\<forall>d. fst (get_attribute labelled_page 1 ''aria-label'' d) = Inr (Some ''Delete item''))"
    by (simp add: labelled_page_def static_env_def)
  have m1: "\<exists>p\<in>set SAFE_CLICK_BLACKLIST. sublist p (lower (if ([] :: string) \<noteq> [] then []
               else case Some ''Delete item'' of None \<Rightarrow> [] | Some s \<Rightarrow> s))"
    using safe(3) by (simp add: is_safe_text_iff)
  note main = safe_click_never_clicks_blacklisted[OF run]
  from main v0 a0 m0 have n0: "\<forall>t ok. EvClick 0 t ok \<notin> set (emitted fresh_world ?w)" by blast
  from main v1 a1 m1 have n1: "\<forall>t ok. EvClick 1 t ok \<notin> set (emitted fresh_world ?w)" by blast
  from n0 n1 run show ?thesis by simp
qed

text \<open>
  C4. The reachability check returns the status code and an empty message whenever the HEAD
  request returns one, whatever its value, and returns no status code with the message of
  the exception exactly when the request raises.
\<close>

theorem http_status_check_outcome:
  "(requests_head E u 10 (drv w) = (Inr c, d) \<longrightarrow> fst (http_status_check E u w) = (Some c, []))
   \<and> (requests_head E u 10 (drv w) = (Inl e, d) \<longrightarrow> fst (http_status_check E u w) = (None, str_exn e))
   \<and> (fst (fst (http_status_check E u w)) = None \<longleftrightarrow> (\<exists>e. fst (requests_head E u 10 (drv w)) = Inl e))"
  by (cases "requests_head E u 10 (drv w)"; cases "fst (requests_head E u 10 (drv w))")
     (auto simp: http_status_check_def)

theorem http_status_check_outcome_witness:
  "fst (http_status_check (static_env [] (\<lambda>b. Inr []) (\<lambda>b. Inr ()) demo_head) ''http://example.com/gone'' fresh_world) = (Some 404, [])
   \<and> fst (http_status_check (static_env [] (\<lambda>b. Inr []) (\<lambda>b. Inr ()) demo_head) ''http://example.com/down'' fresh_world) = (None, ''timed out'')"
proof -
  let ?E = "static_env [] (\<lambda>b. Inr []) (\<lambda>b. Inr ()) demo_head"
  have a: "requests_head ?E ''http://example.com/gone'' 10 (drv fresh_world) = (Inr 404, 0)"
    by (simp add: static_env_def demo_head_def fresh_world_def)
  have b: "requests_head ?E ''http://example.com/down'' 10 (drv fresh_world) = (Inl (OtherException ''timed out''), 0)"
    by (simp add: static_env_def demo_head_def fresh_world_def)
  from a http_status_check_outcome[of ?E "''http://example.com/gone''" fresh_world 404 0]
  have 1: "fst (http_status_check ?E ''http://example.com/gone'' fresh_world) = (Some 404, [])" by blast
  from b http_status_check_outcome[of ?E "''http://example.com/down''" fresh_world _ 0 "OtherException ''timed out''"]
  have 2: "fst (http_status_check ?E ''http://example.com/down'' fresh_world) = (None, str_exn (OtherException ''timed out''))" by blast
  from 1 2 show ?thesis by simp
qed

text \<open>
  C5. Session setup does not validate the base URL. It fails only when \<^verbatim>\<open>urlparse\<close> raises
  on the normalised string or the browser cannot be started; whenever \<^verbatim>\<open>urlparse\<close> returns
  and the browser starts it yields a session whose base URL is the normalised input, which
  starts with \<^verbatim>\<open>http\<close> and is the only entry of the frontier.
\<close>

theorem SiteTester_init_outcome:
  "(\<forall>s d. SiteTester_init L now chrome raw = Inr (s, d) \<longrightarrow>
      base_url s = normalise raw \<and> prefix ''http'' (base_url s) \<and> to_visit s = [base_url s]
      \<and> urlparse L (base_url s) = Inr (scheme s, domain s) \<and> chrome = Inr d)
   \<and> (\<forall>e. SiteTester_init L now chrome raw = Inl e \<longrightarrow>
        (\<exists>m. urlparse L (normalise raw) = Inl m \<and> e = ValueError m) \<or> chrome = Inl e)
   \<and> ((\<exists>p. urlparse L (normalise raw) = Inr p) \<and> (\<exists>d. chrome = Inr d) \<longrightarrow>
        (\<exists>sd. SiteTester_init L now chrome raw = Inr sd))"
  by (auto simp: SiteTester_init_def Let_def normalise_def split: sum.splits prod.splits)

theorem SiteTester_init_outcome_witness:
  "SiteTester_init demo_lib 0 (Inr (0::nat)) ''example.com/''
     = Inr (demo_self, 0)
   \<and> base_url demo_self = normalise ''example.com/''
   \<and> SiteTester_init demo_lib 0 (Inr (0::nat)) ''['' = Inl (ValueError ''Invalid IPv6 URL'')"
proof -
  have a: "SiteTester_init demo_lib 0 (Inr (0::nat)) ''example.com/'' = Inr (demo_self, 0)"
    by (simp add: SiteTester_init_def Let_def normalise_def demo_lib_def demo_urlparse_def demo_self_def)
  have b: "SiteTester_init demo_lib 0 (Inr (0::nat)) ''['' = Inl (ValueError ''Invalid IPv6 URL'')"
    by (simp add: SiteTester_init_def Let_def normalise_def demo_lib_def demo_urlparse_def)
  from a SiteTester_init_outcome[of demo_lib 0 "Inr (0::nat)" "''example.com/''"]
  have "base_url demo_self = normalise ''example.com/''" by blast
  with a b show ?thesis by blast
qed

text \<open>The string \<^verbatim>\<open>not a url\<close> is accepted as a base URL.\<close>

theorem SiteTester_init_accepts_malformed:
  "SiteTester_init demo_lib 0 (Inr (0::nat)) ''not a url''
     = Inr (\<lparr>base_url = ''http://not a url'', domain = ''not a url'', scheme = ''http'',
             visited = {}, to_visit = [''http://not a url''], results = [], start_time = 0\<rparr>, 0)"
  by (simp add: SiteTester_init_def Let_def normalise_def demo_lib_def demo_urlparse_def)

text \<open>
  C6. The indexed click records are not pairwise distinct. The suffix of
  \<^verbatim>\<open>button_click_<i>\<close> is the counter \<open>clicked\<close>, which the success path advances and the
  \<^verbatim>\<open>except\<close> path does not: on a page with two buttons whose \<^verbatim>\<open>click()\<close> raises, safe-click
  probing appends two failed records that are both named \<^verbatim>\<open>button_click_0\<close>, and then the
  summary record.
\<close>

theorem failed_clicks_share_index:
  "map name (tests (page_result (snd (safe_click_buttons intercepted_buttons fresh_world))))
     = [''button_click_0'', ''button_click_0'', ''button_clicks'']
   \<and> \<not> passed (tests (page_result (snd (safe_click_buttons intercepted_buttons fresh_world))) ! 0)
   \<and> \<not> passed (tests (page_result (snd (safe_click_buttons intercepted_buttons fresh_world))) ! 1)"
  by (simp add: run_defs intercepted_buttons_def safe_texts button_click_names)

text \<open>
  The non-indexed names are appended at most once by each invocation of a check, and the
  names appended by one execution of the body of safe-click probing are pairwise distinct
  when every appended record is a pass.
\<close>

lemma check_names_per_invocation:
  "(\<forall>r w'. check_internal_links L E self src base w = (r, w') \<longrightarrow>
       length (filter (\<lambda>t. name t = ''broken_links'') (appended w w')) \<le> 1
       \<and> set (map name (appended w w')) \<subseteq> {''broken_links''})
   \<and> (\<forall>r w'. fill_and_submit_forms E w = (r, w') \<longrightarrow> map name (appended w w') = [''forms_detected''])
   \<and> (\<forall>r w'. safe_click_buttons E w = (r, w') \<longrightarrow>
         length (filter (\<lambda>t. name t = ''button_clicks'') (appended w w')) \<le> 1)
   \<and> (\<forall>r w'. safe_click_buttons_body E w = (r, w') \<longrightarrow> (\<forall>t\<in>set (appended w w'). passed t) \<longrightarrow>
         distinct (map name (appended w w')))"
proof (intro conjI allI impI)
  fix r w' assume run: "check_internal_links L E self src base w = (r, w')"
  from check_internal_links_body_run[OF check_internal_links_run[OF run]]
  have "appended w w' = [] \<or> (\<exists>ps. appended w w' = [broken_links_record L (broken_of ps)])"
  proof (elim disjE exE conjE)
    fix m assume "w' = w"
    then show ?thesis by (simp add: appended_def)
  next
    fix links ps assume "extends w w' [broken_links_record L (broken_of ps)] (head_events ps)"
    from extends_observed[OF this] show ?thesis by blast
  qed
  then show "length (filter (\<lambda>t. name t = ''broken_links'') (appended w w')) \<le> 1"
    and "set (map name (appended w w')) \<subseteq> {''broken_links''}"
    by (auto simp: broken_links_record_def)
next
  fix r w' assume "fill_and_submit_forms E w = (r, w')"
  from fill_and_submit_forms_run[OF this] obtain m where
    "extends w w' [\<lparr>name = ''forms_detected'', passed = True, message = m\<rparr>] []" by blast
  from extends_observed[OF this] show "map name (appended w w') = [''forms_detected'']" by simp
next
  fix r w' assume "safe_click_buttons E w = (r, w')"
  from safe_click_buttons_summary[OF this] obtain recs evs where
    "extends w w' recs evs" "length (filter is_summary recs) \<le> 1" by blast
  with extends_observed[of w w' recs evs]
  show "length (filter (\<lambda>t. name t = ''button_clicks'') (appended w w')) \<le> 1"
    by (simp add: is_summary_def[abs_def])
next
  fix r w' assume "safe_click_buttons_body E w = (r, w')" "\<forall>t\<in>set (appended w w'). passed t"
  then show "distinct (map name (appended w w'))" by (rule safe_click_buttons_body_distinct)
qed

text \<open>
  C7. Every URL in the set returned by link discovery passes the same-domain matcher and
  contains no \<^verbatim>\<open>#\<close>; the set consists of exactly the links contributed by the anchors of
  the page, so duplicates collapse; an anchor whose \<^verbatim>\<open>href\<close> starts with \<^verbatim>\<open>mailto:\<close> or
  \<^verbatim>\<open>tel:\<close> and an anchor that resolves to a URL starting with \<^verbatim>\<open>javascript:\<close> contribute
  nothing; the set is finite.
\<close>

theorem discover_links_result:
  assumes "discover_links L self src base = Inr links"
  shows "(\<forall>u\<in>links. same_domain L self u \<and> CHR ''#'' \<notin> set u)
       \<and> links = {u. \<exists>a\<in>set (anchor_hrefs L src). contributes L self base a u}
       \<and> (\<forall>a u. prefix ''mailto:'' a \<or> prefix ''tel:'' a \<longrightarrow> \<not> contributes L self base a u)
       \<and> (\<forall>a u absolute. urljoin L base (strip a) = Inr absolute \<and> prefix ''javascript:'' absolute
             \<longrightarrow> \<not> contributes L self base a u)
       \<and> finite links"
proof -
  from assms have "discover_loop L self base (anchor_hrefs L src) {} = Inr links"
    by (simp add: discover_links_def)
  from discover_loop_result[OF this]
  have eq: "links = {u. \<exists>a\<in>set (anchor_hrefs L src). contributes L self base a u}" by simp
  have a: "\<forall>u\<in>links. same_domain L self u \<and> CHR ''#'' \<notin> set u"
    unfolding eq by (auto simp: contributes_def split_hash_0_no_hash)
  have b: "\<forall>a u. prefix ''mailto:'' a \<or> prefix ''tel:'' a \<longrightarrow> \<not> contributes L self base a u"
    using strip_keeps_mailto_tel by (auto simp: contributes_def)
  have c: "\<forall>a u absolute. urljoin L base (strip a) = Inr absolute \<and> prefix ''javascript:'' absolute
             \<longrightarrow> \<not> contributes L self base a u"
    by (auto simp: contributes_def)
  have "links \<subseteq> (\<lambda>a. split_hash_0 (projr (urljoin L base (strip a)))) ` set (anchor_hrefs L src)"
  proof
    fix u assume "u \<in> links"
    then obtain a absolute where m: "a \<in> set (anchor_hrefs L src)"
      and j: "urljoin L base (strip a) = Inr absolute" and u: "u = split_hash_0 absolute"
      unfolding eq contributes_def by blast
    from j u have "u = split_hash_0 (projr (urljoin L base (strip a)))" by simp
    with m show "u \<in> (\<lambda>a. split_hash_0 (projr (urljoin L base (strip a)))) ` set (anchor_hrefs L src)"
      by blast
  qed
  then have d: "finite links" by (rule finite_subset) simp
  from a eq b c d show ?thesis by blast
qed

theorem discover_links_result_witness:
  "discover_links demo_lib demo_self demo_page ''http://example.com/''
     = Inr {''http://example.com/about'', ''http://example.com/gone''}
   \<and> same_domain demo_lib demo_self ''http://example.com/about''
   \<and> CHR ''#'' \<notin> set ''http://example.com/about''
   \<and> \<not> contributes demo_lib demo_self ''http://example.com/'' ''mailto:me@example.com''
          ''mailto:me@example.com''"
proof -
  have d: "discover_links demo_lib demo_self demo_page ''http://example.com/''
     = Inr {''http://example.com/about'', ''http://example.com/gone''}"
    by code_simp
  have p: "prefix ''mailto:'' ''mailto:me@example.com''" by simp
  from discover_links_result[OF d] p show ?thesis using d by blast
qed

text \<open>
  C8. \<^verbatim>\<open>normalise\<close> is idempotent: normalising an already normalised URL returns it
  unchanged, for every input string.
\<close>

theorem normalise_idempotent: "normalise (normalise u) = normalise u"
  by (simp add: normalise_def)




text \<open>
  When \<^verbatim>\<open>back()\<close> raises after a click, the counter is not advanced: on a page with four
  buttons all four are clicked, each with a pass and a failed record of index 0, and the
  summary record is appended as well.
\<close>

lemma back_raising_clicks_are_not_counted:
  "fst (safe_click_buttons_body back_raises_page fresh_world) = Inr ()
   \<and> length (filter click_returned (log (snd (safe_click_buttons_body back_raises_page fresh_world)))) = 4
   \<and> map name (tests (page_result (snd (safe_click_buttons_body back_raises_page fresh_world))))
       = [''button_click_0'', ''button_click_0'', ''button_click_0'', ''button_click_0'',
          ''button_click_0'', ''button_click_0'', ''button_click_0'', ''button_click_0'',
          ''button_clicks'']"
  by (simp add: run_defs back_raises_page_def safe_texts button_click_names)

text \<open>
  C10. An element with an empty visible text and a missing or empty \<^verbatim>\<open>aria-label\<close> has the
  empty derived text, the safe-text predicate holds of the empty text, and when fewer than
  3 candidates have been counted the loop calls \<^verbatim>\<open>click()\<close> on the element.
\<close>

theorem unlabeled_button_is_clicked:
  assumes "element_text E b (drv w) = (Inr [], d1)"
      and "get_attribute E b ''aria-label'' d1 = (Inr a, d2)"
      and "a = None \<or> a = Some []"
      and "clicked < 3"
  shows "derive_text E b (drv w) = (Inr [], d2) \<and> is_safe_text []
       \<and> (\<exists>ok. EvClick b [] ok \<in> set (emitted w (snd (click_loop E (b # bs) clicked w))))"
proof -
  from assms(1-3) have dt: "derive_text E b (drv w) = (Inr [], d2)"
    by (auto simp: derive_text_def)
  have safe: "is_safe_text []" by (simp add: is_safe_text_def)
  obtain k1 w1 where tc: "try_click E b [] clicked (w\<lparr>drv := d2\<rparr>) = (k1, w1)"
    by (cases "try_click E b [] clicked (w\<lparr>drv := d2\<rparr>)")
  obtain r w' where cl: "click_loop E bs k1 w1 = (r, w')" by (cases "click_loop E bs k1 w1")
  from dt safe tc cl assms(4) have all: "click_loop E (b # bs) clicked w = (r, w')" by simp
  from try_click_cases[OF tc] obtain recs1 evs1 ok where
    e1: "extends w w1 recs1 (EvClick b [] ok # evs1)" by auto
  from click_loop_run[OF cl] obtain recs2 evs2 where e2: "extends w1 w' recs2 evs2" by blast
  from extends_observed[OF extends_trans[OF e1 e2]]
  have "emitted w w' = EvClick b [] ok # evs1 @ evs2" by simp
  moreover have "snd (click_loop E (b # bs) clicked w) = w'"
    using arg_cong[OF all, of snd] by (simp only: snd_conv)
  ultimately have "EvClick b [] ok \<in> set (emitted w (snd (click_loop E (b # bs) clicked w)))"
    by (simp del: click_loop.simps)
  with dt safe show ?thesis by blast
qed

theorem unlabeled_button_is_clicked_witness:
  "derive_text unlabeled_button 7 0 = (Inr [], 0)
   \<and> EvClick 7 [] True \<in> set (emitted fresh_world (snd (click_loop unlabeled_button [7] 0 fresh_world)))"
proof -
  have a: "element_text unlabeled_button 7 (drv fresh_world) = (Inr [], 0)"
    by (simp add: unlabeled_button_def static_env_def fresh_world_def)
  have b: "get_attribute unlabeled_button 7 ''aria-label'' 0 = (Inr None, 0)"
    by (simp add: unlabeled_button_def static_env_def)
  from unlabeled_button_is_clicked[OF a b, of 0 "[]"]
  obtain ok where dt: "derive_text unlabeled_button 7 (drv fresh_world) = (Inr [], 0)"
    and ev: "EvClick 7 [] ok \<in> set (emitted fresh_world (snd (click_loop unlabeled_button [7] 0 fresh_world)))"
    by auto
  have "emitted fresh_world (snd (click_loop unlabeled_button [7] 0 fresh_world))
          = [EvClick 7 [] True, EvSleep 1, EvBack True, EvSleep 1]"
    by (simp add: unlabeled_button_def static_env_def fresh_world_def derive_text_def
          try_click_def sleep_def page_add_def add_def PageResult_init_def is_safe_text_def emitted_def)
  with ev have "ok = True" by simp
  with ev dt show ?thesis by (simp add: fresh_world_def)
qed

end
